theory Spec2Isabelle
  imports Main
begin

section \<open>Strings\<close>

text \<open>
  The plugin works on JavaScript strings. They are modelled as \<open>string\<close> (a list of
  \<open>char\<close>), one \<open>char\<close> standing for one code unit; offsets are natural numbers.
\<close>

definition slice :: "string \<Rightarrow> nat \<Rightarrow> nat \<Rightarrow> string" where
  \<comment> \<open>\<open>s.slice(a, b)\<close> for offsets that are not negative: empty when \<open>b \<le> a\<close>,
      clamped to the end of the string.\<close>
  "slice s a b = take (b - a) (drop a s)"

definition is_space :: "char \<Rightarrow> bool" where
  \<comment> \<open>The class \<open>\s\<close>, which is also what \<open>trim()\<close> removes: tab, line feed, vertical tab,
      form feed, carriage return, space and the no-break space.\<close>
  "is_space c = (let n = (of_char c :: nat) in (9 \<le> n \<and> n \<le> 13) \<or> n = 32 \<or> n = 160)"

definition is_word :: "char \<Rightarrow> bool" where
  \<comment> \<open>The class \<open>\w\<close>: letters, digits and the underscore.\<close>
  "is_word c = (let n = (of_char c :: nat) in
     (48 \<le> n \<and> n \<le> 57) \<or> (65 \<le> n \<and> n \<le> 90) \<or> n = 95 \<or> (97 \<le> n \<and> n \<le> 122))"

definition trim :: "string \<Rightarrow> string" where
  "trim s = rev (dropWhile is_space (rev (dropWhile is_space s)))"

definition indexOf :: "string \<Rightarrow> char \<Rightarrow> nat option" where
  \<comment> \<open>\<open>s.indexOf(c)\<close>; \<open>None\<close> stands for \<open>-1\<close>.\<close>
  "indexOf s c = (if c \<in> set s then Some (length (takeWhile (\<lambda>x. x \<noteq> c) s)) else None)"

section \<open>Regular expressions\<close>

text \<open>
  The source scans with regular expression literals. Each literal is written below as a
  value of \<open>regex\<close>, and \<open>rmatch\<close> gives the backtracking semantics of the engine: the
  list of all ways the expression matches a prefix of the text, in the order the engine
  tries them (a greedy quantifier tries the longest run first, an alternative its left
  branch first, an optional part its presence first). The engine's answer is the head
  of that list. Quantifiers occur in the source on character classes only.
\<close>

datatype cclass = Space | WordDash | NoneOf string

primrec in_class :: "cclass \<Rightarrow> char \<Rightarrow> bool" where
  "in_class Space c = is_space c"
| "in_class WordDash c = (is_word c \<or> c = CHR ''-'')"
| "in_class (NoneOf cs) c = (c \<notin> set cs)"

datatype regex =
    Lit string
  | Cls cclass
  | Star cclass
  | Plus cclass
  | Opt regex
  | Seq regex regex
  | Alt regex regex
  | Grp nat regex
  | Eol

type_synonym caps = "nat \<Rightarrow> string option"

primrec rmatch :: "regex \<Rightarrow> caps \<Rightarrow> string \<Rightarrow> (caps \<times> string) list" where
  "rmatch (Lit w) c s = (if take (length w) s = w then [(c, drop (length w) s)] else [])"
| "rmatch (Cls k) c s =
     (case s of [] \<Rightarrow> [] | x # t \<Rightarrow> if in_class k x then [(c, t)] else [])"
| "rmatch (Star k) c s =
     map (\<lambda>n. (c, drop n s)) (rev [0 ..< Suc (length (takeWhile (in_class k) s))])"
| "rmatch (Plus k) c s =
     map (\<lambda>n. (c, drop n s)) (rev [1 ..< Suc (length (takeWhile (in_class k) s))])"
| "rmatch (Opt r) c s = rmatch r c s @ [(c, s)]"
| "rmatch (Seq a b) c s = concat (map (\<lambda>(c', s'). rmatch b c' s') (rmatch a c s))"
| "rmatch (Alt a b) c s = rmatch a c s @ rmatch b c s"
| "rmatch (Grp i r) c s =
     map (\<lambda>(c', s'). (c'(i \<mapsto> take (length s - length s') s), s')) (rmatch r c s)"
| "rmatch Eol c s = (if s = [] then [(c, s)] else [])"

primrec cat :: "regex list \<Rightarrow> regex" where
  "cat [] = Lit []"
| "cat (r # rs) = Seq r (cat rs)"

primrec ngroups :: "regex \<Rightarrow> nat" where
  "ngroups (Lit w) = 0"
| "ngroups (Cls k) = 0"
| "ngroups (Star k) = 0"
| "ngroups (Plus k) = 0"
| "ngroups (Opt r) = ngroups r"
| "ngroups (Seq a b) = ngroups a + ngroups b"
| "ngroups (Alt a b) = ngroups a + ngroups b"
| "ngroups (Grp i r) = Suc (ngroups r)"
| "ngroups Eol = 0"

definition exec :: "regex \<Rightarrow> string \<Rightarrow> (caps \<times> nat) option" where
  \<comment> \<open>A match attempt at the start of \<open>s\<close>: the captures and the length matched.\<close>
  "exec r s = (case rmatch r (\<lambda>_. None) s of
       [] \<Rightarrow> None
     | (c, s') # _ \<Rightarrow> Some (c, length s - length s'))"

fun search :: "regex \<Rightarrow> string \<Rightarrow> (nat \<times> caps \<times> nat) option" where
  \<comment> \<open>The leftmost match: its offset, captures and length.\<close>
  "search r [] = (case exec r [] of None \<Rightarrow> None | Some (c, n) \<Rightarrow> Some (0, c, n))"
| "search r (x # xs) =
     (case exec r (x # xs) of
        Some (c, n) \<Rightarrow> Some (0, c, n)
      | None \<Rightarrow> (case search r xs of None \<Rightarrow> None | Some (k, c, n) \<Rightarrow> Some (Suc k, c, n)))"

record rx_match =
  index :: nat
  full :: string
  groups :: caps

function matchAll :: "regex \<Rightarrow> nat \<Rightarrow> string \<Rightarrow> rx_match list" where
  \<comment> \<open>\<open>code.matchAll(r)\<close> for a global expression, on the text \<open>s\<close> that starts at offset
      \<open>i\<close> of \<open>code\<close>: after a match the scan resumes at its end, one further on when
      the match is empty.\<close>
  "matchAll r i s =
     (case search r s of
        None \<Rightarrow> []
      | Some (k, c, n) \<Rightarrow>
          \<lparr>index = i + k, full = take n (drop k s), groups = c\<rparr> #
          (if length s < k + max 1 n then []
           else matchAll r (i + k + max 1 n) (drop (k + max 1 n) s)))"
  by pat_completeness auto
termination
  by (relation "measure (\<lambda>(r, i, s). length s)") auto

declare matchAll.simps [simp del]

fun splice :: "string \<Rightarrow> (rx_match \<Rightarrow> string) \<Rightarrow> rx_match list \<Rightarrow> nat \<Rightarrow> string" where
  "splice s f [] lastIdx = drop lastIdx s"
| "splice s f (m # ms) lastIdx =
     slice s lastIdx (index m) @ f m @ splice s f ms (index m + length (full m))"

definition replaceFn :: "regex \<Rightarrow> (rx_match \<Rightarrow> string) \<Rightarrow> string \<Rightarrow> string" where
  \<comment> \<open>\<open>s.replace(r, fn)\<close> for a global expression and a replacer function.\<close>
  "replaceFn r f s = splice s f (matchAll r 0 s) 0"


definition digit :: "char \<Rightarrow> nat option" where
  "digit c = (let n = (of_char c :: nat) in if 48 \<le> n \<and> n \<le> 57 then Some (n - 48) else None)"

definition capture :: "rx_match \<Rightarrow> nat \<Rightarrow> string" where
  \<comment> \<open>A capture as a replacement text: an undefined capture gives the empty string.\<close>
  "capture mt i = (case groups mt i of None \<Rightarrow> [] | Some g \<Rightarrow> g)"

function getSubstitution :: "nat \<Rightarrow> rx_match \<Rightarrow> string \<Rightarrow> string \<Rightarrow> string" where
  \<comment> \<open>The expansion of a replacement string (ECMAScript GetSubstitution) for an
      expression with \<open>m\<close> captures and no named ones: \<open>$$\<close>, \<open>$&\<close>, the text before and
      after the match, and \<open>$n\<close>, \<open>$nn\<close>.\<close>
  "getSubstitution m mt str [] = []"
| "getSubstitution m mt str [c] = [c]"
| "getSubstitution m mt str (c # d # t) =
     (if c \<noteq> CHR ''$'' then c # getSubstitution m mt str (d # t)
      else if d = CHR ''$'' then CHR ''$'' # getSubstitution m mt str t
      else if d = CHR ''&'' then full mt @ getSubstitution m mt str t
      else if d = CHR 0x60 then take (index mt) str @ getSubstitution m mt str t
      else if d = CHR 0x27 then
        drop (index mt + length (full mt)) str @ getSubstitution m mt str t
      else
        (case digit d of
           None \<Rightarrow> c # getSubstitution m mt str (d # t)
         | Some n1 \<Rightarrow>
             (case (case t of [] \<Rightarrow> None | d2 # _ \<Rightarrow> digit d2) of
                None \<Rightarrow>
                  (if 1 \<le> n1 \<and> n1 \<le> m then capture mt n1 else [c, d]) @
                  getSubstitution m mt str t
              | Some n2 \<Rightarrow>
                  (if 10 * n1 + n2 \<le> m then
                     (if 1 \<le> 10 * n1 + n2 then capture mt (10 * n1 + n2) else c # d # take 1 t) @
                     getSubstitution m mt str (drop 1 t)
                   else
                     (if 1 \<le> n1 \<and> n1 \<le> m then capture mt n1 else [c, d]) @
                     getSubstitution m mt str t))))"
  by pat_completeness auto
termination
  by (relation "measure (\<lambda>(m, mt, str, t). length t)") auto

definition replaceStr :: "regex \<Rightarrow> string \<Rightarrow> string \<Rightarrow> string" where
  \<comment> \<open>\<open>s.replace(r, repl)\<close> for a global expression and a replacement string.\<close>
  "replaceStr r repl s = replaceFn r (\<lambda>mt. getSubstitution (ngroups r) mt s repl) s"

section \<open>Types and constants\<close>

record FunctionParam =
  name :: string
  defaultValue :: "string option"

record FunctionDef =
  fn_name :: string
  params :: "FunctionParam list"
  body :: string

record MixinDef = FunctionDef +
  hasContents :: bool

datatype error =
    UnmatchedBrace nat  \<comment> \<open>\<open>Unmatched brace at position ${start}\<close>\<close>
  | MissingResult  \<comment> \<open>\<open>Missing "result:" in function body\<close>\<close>

definition MAX_RECURSION_DEPTH :: nat where
  "MAX_RECURSION_DEPTH = 10"

definition OPEN_BRACKETS :: "char set" where
  "OPEN_BRACKETS = {CHR ''('', CHR ''{'', CHR ''[''}"

definition CLOSE_BRACKETS :: "char set" where
  "CLOSE_BRACKETS = {CHR '')'', CHR ''}'', CHR '']''}"

section \<open>Parsing utilities\<close>

function findMatchingBrace_loop :: "string \<Rightarrow> nat \<Rightarrow> nat \<Rightarrow> int \<Rightarrow> error + nat" where
  "findMatchingBrace_loop code start i depth =
     (if i < length code then
        (let depth' = (if code ! i \<in> OPEN_BRACKETS then depth + 1
                       else if code ! i \<in> CLOSE_BRACKETS then depth - 1
                       else depth)
         in if depth' = 0 then Inr i else findMatchingBrace_loop code start (i + 1) depth')
      else Inl (UnmatchedBrace start))"
  by pat_completeness auto
termination
  by (relation "measure (\<lambda>(code, start, i, depth). length code - i)") auto

declare findMatchingBrace_loop.simps [simp del]

definition findMatchingBrace :: "string \<Rightarrow> nat \<Rightarrow> error + nat" where
  "findMatchingBrace code start = findMatchingBrace_loop code start start 1"

fun splitByComma_loop :: "string \<Rightarrow> string list \<Rightarrow> string \<Rightarrow> int \<Rightarrow> string list \<times> string" where
  "splitByComma_loop [] parts current depth = (parts, current)"
| "splitByComma_loop (char # rest) parts current depth =
     (let depth' = (if char \<in> OPEN_BRACKETS then depth + 1
                    else if char \<in> CLOSE_BRACKETS then depth - 1
                    else depth)
      in if char = CHR '','' \<and> depth' = 0
         then splitByComma_loop rest (parts @ [trim current]) [] depth'
         else splitByComma_loop rest parts (current @ [char]) depth')"

definition splitByComma :: "string \<Rightarrow> string list" where
  "splitByComma str =
     (case splitByComma_loop str [] [] 0 of
        (parts, current) \<Rightarrow> if trim current \<noteq> [] then parts @ [trim current] else parts)"

definition identRegex :: regex where
  \<comment> \<open>\<open>(--[\w-]+)\<close>, the first capture of every expression that has it.\<close>
  "identRegex = Grp 1 (Seq (Lit ''--'') (Plus WordDash))"

definition nameRegex :: regex where
  \<comment> \<open>\<open>/^(--[\w-]+)/\<close>; the anchor is rendered by matching at offset 0 only.\<close>
  "nameRegex = identRegex"

fun parseParams_loop ::
  "string list \<Rightarrow> FunctionParam list \<Rightarrow> bool \<Rightarrow> FunctionParam list \<times> bool" where
  "parseParams_loop [] params' hasContents' = (params', hasContents')"
| "parseParams_loop (p # ps) params' hasContents' =
     (if trim p = ''@contents'' then parseParams_loop ps params' True
      else
        (let colonIdx = indexOf p (CHR '':'');
             namePart = (case colonIdx of Some i \<Rightarrow> trim (slice p 0 i) | None \<Rightarrow> p);
             defaultValue' = (case colonIdx of Some i \<Rightarrow> Some (trim (drop (i + 1) p)) | None \<Rightarrow> None);
             name' = (case exec nameRegex namePart of
                        None \<Rightarrow> namePart
                      | Some (c, n) \<Rightarrow> (case c 1 of None \<Rightarrow> namePart | Some g \<Rightarrow> g))
         in if name' \<noteq> []
            then parseParams_loop ps
                   (params' @ [\<lparr>name = name', defaultValue = defaultValue'\<rparr>]) hasContents'
            else parseParams_loop ps params' hasContents'))"

definition parseParams :: "string \<Rightarrow> FunctionParam list \<times> bool" where
  "parseParams paramStr = parseParams_loop (splitByComma paramStr) [] False"

definition resultRegex :: regex where
  \<comment> \<open>\<open>/result\s*:\s*([^;]+)(?:;|$)/\<close>\<close>
  "resultRegex = cat [Lit ''result'', Star Space, Lit '':'', Star Space,
     Grp 1 (Plus (NoneOf '';'')), Alt (Lit '';'') Eol]"

definition extractResult :: "string \<Rightarrow> error + string" where
  "extractResult body' =
     (case search resultRegex body' of
        None \<Rightarrow> Inl MissingResult
      | Some (k, c, n) \<Rightarrow> Inr (trim (case c 1 of None \<Rightarrow> [] | Some g \<Rightarrow> g)))"

definition argMapOf :: "FunctionParam list \<Rightarrow> string list \<Rightarrow> (string \<Rightarrow> string option option)" where
  \<comment> \<open>\<open>new Map(params.map((param, i) => [param.name, args[i] ?? param.defaultValue]))\<close>:
      a later parameter of the same name replaces an earlier one; the value of an entry
      may be undefined (\<open>None\<close>).\<close>
  "argMapOf ps args =
     fold (\<lambda>(i, param) m. m(name param \<mapsto> (if i < length args then Some (args ! i) else defaultValue param)))
       (enumerate 0 ps) (\<lambda>_. None)"

definition substitution :: "(string \<Rightarrow> string option option) \<Rightarrow> rx_match \<Rightarrow> string" where
  \<comment> \<open>\<open>(match, varName, fallback) => argMap.get(varName) ?? fallback?.trim() ?? match\<close>\<close>
  "substitution argMap mt =
     (case (case groups mt 1 of None \<Rightarrow> None | Some varName \<Rightarrow> argMap varName) of
        Some (Some v) \<Rightarrow> v
      | _ \<Rightarrow> (case groups mt 2 of Some fallback \<Rightarrow> trim fallback | None \<Rightarrow> full mt))"

definition reference :: "string \<Rightarrow> regex" where
  \<comment> \<open>\<open>/var\(\s*(--[\w-]+)\s*(?:,\s*([^)]+))?\s*\)/g\<close>, and the same with \<open>env\<close>.\<close>
  "reference kw = cat [Lit (kw @ ''(''), Star Space, identRegex, Star Space,
     Opt (cat [Lit '','', Star Space, Grp 2 (Plus (NoneOf '')''))]), Star Space, Lit '')'']"

definition substituteVars :: "string \<Rightarrow> FunctionParam list \<Rightarrow> string list \<Rightarrow> string" where
  "substituteVars template ps args =
     replaceFn (reference ''var'') (substitution (argMapOf ps args)) template"

definition substituteEnvVars :: "string \<Rightarrow> FunctionParam list \<Rightarrow> string list \<Rightarrow> string" where
  "substituteEnvVars template ps args =
     replaceFn (reference ''env'') (substitution (argMapOf ps args)) template"

section \<open>Extraction of definitions\<close>

type_synonym span = "nat \<times> nat"

definition functionRegex :: regex where
  \<comment> \<open>\<open>/@function\s+(--[\w-]+)\s*\(([^)]*)\)(?:\s*returns\s*[^{]+)?\s*\{/g\<close>\<close>
  "functionRegex = cat [Lit ''@function'', Plus Space, identRegex, Star Space,
     Lit ''('', Grp 2 (Star (NoneOf '')'')), Lit '')'',
     Opt (cat [Star Space, Lit ''returns'', Star Space, Plus (NoneOf ''{'')]),
     Star Space, Lit ''{'']"

definition mixinRegex :: regex where
  \<comment> \<open>\<open>/@mixin\s+(--[\w-]+)\s*\(([^)]*)\)\s*\{/g\<close>\<close>
  "mixinRegex = cat [Lit ''@mixin'', Plus Space, identRegex, Star Space,
     Lit ''('', Grp 2 (Star (NoneOf '')'')), Lit '')'', Star Space, Lit ''{'']"

fun extractFunctions_loop ::
  "string \<Rightarrow> rx_match list \<Rightarrow> (string \<Rightarrow> FunctionDef option) \<Rightarrow> span list \<Rightarrow>
   error + ((string \<Rightarrow> FunctionDef option) \<times> span list)" where
  "extractFunctions_loop code [] registry removals = Inr (registry, removals)"
| "extractFunctions_loop code (mt # ms) registry removals =
     (let bodyStart = index mt + length (full mt)
      in case findMatchingBrace code bodyStart of
           Inl e \<Rightarrow> Inl e
         | Inr bodyEnd \<Rightarrow>
             extractFunctions_loop code ms
               (registry(capture mt 1 \<mapsto>
                  \<lparr>fn_name = capture mt 1, params = fst (parseParams (capture mt 2)),
                   body = slice code bodyStart bodyEnd\<rparr>))
               (removals @ [(index mt, bodyEnd + 1)]))"

definition extractFunctions ::
  "string \<Rightarrow> (string \<Rightarrow> FunctionDef option) \<Rightarrow>
   error + ((string \<Rightarrow> FunctionDef option) \<times> span list)" where
  \<comment> \<open>The registry is mutated in place by the source; here the new registry is returned
      with the spans. When the source throws, the entries set before the throw stay in
      its registry; the model returns the error alone.\<close>
  "extractFunctions code registry =
     extractFunctions_loop code (matchAll functionRegex 0 code) registry []"

fun extractMixins_loop ::
  "string \<Rightarrow> rx_match list \<Rightarrow> (string \<Rightarrow> MixinDef option) \<Rightarrow> span list \<Rightarrow>
   error + ((string \<Rightarrow> MixinDef option) \<times> span list)" where
  "extractMixins_loop code [] registry removals = Inr (registry, removals)"
| "extractMixins_loop code (mt # ms) registry removals =
     (let bodyStart = index mt + length (full mt)
      in case findMatchingBrace code bodyStart of
           Inl e \<Rightarrow> Inl e
         | Inr bodyEnd \<Rightarrow>
             (case parseParams (capture mt 2) of
                (params', hasContents') \<Rightarrow>
                  extractMixins_loop code ms
                    (registry(capture mt 1 \<mapsto>
                       \<lparr>fn_name = capture mt 1, params = params',
                        body = slice code bodyStart bodyEnd, hasContents = hasContents'\<rparr>))
                    (removals @ [(index mt, bodyEnd + 1)])))"

definition extractMixins ::
  "string \<Rightarrow> (string \<Rightarrow> MixinDef option) \<Rightarrow>
   error + ((string \<Rightarrow> MixinDef option) \<times> span list)" where
  "extractMixins code registry =
     extractMixins_loop code (matchAll mixinRegex 0 code) registry []"

definition blank :: "string \<Rightarrow> string" where
  \<comment> \<open>\<open>.replace(/[^\n]/g, "")\<close>\<close>
  "blank s = replaceStr (Cls (NoneOf [CHR 0x0A])) [] s"

fun stripDefinitions_loop :: "span list \<Rightarrow> string \<Rightarrow> string" where
  "stripDefinitions_loop [] result = result"
| "stripDefinitions_loop ((start, stop) # rest) result =
     stripDefinitions_loop rest
       (slice result 0 start @ blank (slice result start stop) @ drop stop result)"

definition stripDefinitions :: "string \<Rightarrow> span list \<Rightarrow> string" where
  "stripDefinitions code removals = stripDefinitions_loop (rev removals) code"

section \<open>Resolution of function calls\<close>

definition callRegex :: regex where
  \<comment> \<open>\<open>/(--[\w-]+)\(/g\<close>\<close>
  "callRegex = Seq identRegex (Lit ''('')"

fun resolveOnce_loop ::
  "string \<Rightarrow> (string \<Rightarrow> FunctionDef option) \<Rightarrow> rx_match list \<Rightarrow> string \<Rightarrow> nat \<Rightarrow>
   error + string" where
  "resolveOnce_loop code registry [] result lastIdx = Inr (result @ drop lastIdx code)"
| "resolveOnce_loop code registry (mt # ms) result lastIdx =
     (let start = index mt;
          argsStart = start + length (full mt);
          result1 = result @ slice code lastIdx start
      in case registry (capture mt 1) of
           None \<Rightarrow> resolveOnce_loop code registry ms (result1 @ full mt) argsStart
         | Some def \<Rightarrow>
             (case findMatchingBrace code argsStart of
                Inl e \<Rightarrow> Inl e
              | Inr argsEnd \<Rightarrow>
                  (let args = splitByComma (slice code argsStart argsEnd)
                   in case extractResult (body def) of
                        Inl e \<Rightarrow> Inl e
                      | Inr expr \<Rightarrow>
                          resolveOnce_loop code registry ms
                            (result1 @ substituteVars expr (params def) args)
                            (argsEnd + 1))))"

definition resolveOnce :: "string \<Rightarrow> (string \<Rightarrow> FunctionDef option) \<Rightarrow> error + string" where
  "resolveOnce code registry = resolveOnce_loop code registry (matchAll callRegex 0 code) [] 0"

fun resolveFunctionCalls_loop ::
  "nat \<Rightarrow> string \<Rightarrow> (string \<Rightarrow> FunctionDef option) \<Rightarrow> error + string" where
  \<comment> \<open>The first argument is the number of iterations left.\<close>
  "resolveFunctionCalls_loop 0 result registry = Inr result"
| "resolveFunctionCalls_loop (Suc n) result registry =
     (case resolveOnce result registry of
        Inl e \<Rightarrow> Inl e
      | Inr next \<Rightarrow>
          if next = result then Inr result else resolveFunctionCalls_loop n next registry)"

definition resolveFunctionCalls ::
  "string \<Rightarrow> (string \<Rightarrow> FunctionDef option) \<Rightarrow> error + string" where
  "resolveFunctionCalls code registry = resolveFunctionCalls_loop MAX_RECURSION_DEPTH code registry"

section \<open>Resolution of mixin applications\<close>

definition applyRegex :: regex where
  \<comment> \<open>\<open>/@apply\s+(--[\w-]+)(?:\s*\(([^)]*)\))?\s*(?:\{([^}]*)\}\s*;?|;)/g\<close>\<close>
  "applyRegex = cat [Lit ''@apply'', Plus Space, identRegex,
     Opt (cat [Star Space, Lit ''('', Grp 2 (Star (NoneOf '')'')), Lit '')'']),
     Star Space,
     Alt (cat [Lit ''{'', Grp 3 (Star (NoneOf ''}'')), Lit ''}'', Star Space, Opt (Lit '';'')])
         (Lit '';'')]"

definition contentsAny :: regex where
  \<comment> \<open>\<open>/@contents\s*(?:\{[^}]*\})?\s*;?/g\<close>\<close>
  "contentsAny = cat [Lit ''@contents'', Star Space,
     Opt (cat [Lit ''{'', Star (NoneOf ''}''), Lit ''}'']), Star Space, Opt (Lit '';'')]"

definition contentsDefault :: regex where
  \<comment> \<open>\<open>/@contents\s*\{([^}]*)\}\s*;?/g\<close>\<close>
  "contentsDefault = cat [Lit ''@contents'', Star Space,
     Lit ''{'', Grp 1 (Star (NoneOf ''}'')), Lit ''}'', Star Space, Opt (Lit '';'')]"

definition contentsBare :: regex where
  \<comment> \<open>\<open>/@contents\s*;?/g\<close>\<close>
  "contentsBare = cat [Lit ''@contents'', Star Space, Opt (Lit '';'')]"

definition unknownMixin :: "string \<Rightarrow> string" where
  "unknownMixin mixinName = ''/* Unknown mixin: '' @ mixinName @ '' */''"

definition applyMixin :: "MixinDef \<Rightarrow> rx_match \<Rightarrow> string" where
  \<comment> \<open>The text that replaces the apply site of a registered mixin.\<close>
  "applyMixin def mt =
     (let args = (case groups mt 2 of
                    None \<Rightarrow> []
                  | Some argsStr \<Rightarrow> if argsStr = [] then [] else splitByComma argsStr);
          substituted = substituteEnvVars (body def) (params def) args
      in if hasContents def \<and> groups mt 3 \<noteq> None
         then replaceStr contentsAny (trim (capture mt 3)) substituted
         else if hasContents def
         then replaceStr contentsBare [] (replaceStr contentsDefault ''$1'' substituted)
         else substituted)"

fun resolveMixinsOnce_loop ::
  "string \<Rightarrow> (string \<Rightarrow> MixinDef option) \<Rightarrow> rx_match list \<Rightarrow> string \<Rightarrow> nat \<Rightarrow> string" where
  "resolveMixinsOnce_loop code registry [] result lastIdx = result @ drop lastIdx code"
| "resolveMixinsOnce_loop code registry (mt # ms) result lastIdx =
     (let start = index mt;
          result1 = result @ slice code lastIdx start
      in case registry (capture mt 1) of
           None \<Rightarrow>
             resolveMixinsOnce_loop code registry ms
               (result1 @ unknownMixin (capture mt 1)) (start + length (full mt))
         | Some def \<Rightarrow>
             resolveMixinsOnce_loop code registry ms
               (result1 @ applyMixin def mt) (start + length (full mt)))"

definition resolveMixinsOnce :: "string \<Rightarrow> (string \<Rightarrow> MixinDef option) \<Rightarrow> string" where
  "resolveMixinsOnce code registry =
     resolveMixinsOnce_loop code registry (matchAll applyRegex 0 code) [] 0"

fun resolveMixinApplications_loop ::
  "nat \<Rightarrow> string \<Rightarrow> (string \<Rightarrow> MixinDef option) \<Rightarrow> string" where
  "resolveMixinApplications_loop 0 result registry = result"
| "resolveMixinApplications_loop (Suc n) result registry =
     (let next = resolveMixinsOnce result registry
      in if next = result then result else resolveMixinApplications_loop n next registry)"

definition resolveMixinApplications :: "string \<Rightarrow> (string \<Rightarrow> MixinDef option) \<Rightarrow> string" where
  "resolveMixinApplications code registry =
     resolveMixinApplications_loop MAX_RECURSION_DEPTH code registry"

section \<open>Merging of spans\<close>

fun mergeRanges_loop :: "span list \<Rightarrow> nat \<Rightarrow> nat \<Rightarrow> span list \<Rightarrow> span list" where
  "mergeRanges_loop [] curStart curEnd merged = merged @ [(curStart, curEnd)]"
| "mergeRanges_loop ((s, e) # rest) curStart curEnd merged =
     (if s \<le> curEnd then mergeRanges_loop rest curStart (max curEnd e) merged
      else mergeRanges_loop rest s e (merged @ [(curStart, curEnd)]))"

definition mergeRanges :: "span list \<Rightarrow> span list" where
  \<comment> \<open>\<open>sort\<close> is stable, as \<open>sort_key\<close> is.\<close>
  "mergeRanges ranges =
     (case sort_key fst ranges of
        [] \<Rightarrow> []
      | (curStart, curEnd) # rest \<Rightarrow> mergeRanges_loop rest curStart curEnd [])"

section \<open>Transformation outside the declarations\<close>

text \<open>
  In the variant of the plugin that keeps the declarations in the text while the calls
  and applications around them are resolved, the spans of the declarations are merged
  and the text between them is resolved chunk by chunk; the declarations are stripped
  afterwards, by \<open>stripDefinitions\<close>, from the text this function returns.
\<close>

fun transformExcludingRanges_loop ::
  "string \<Rightarrow> span list \<Rightarrow> (string \<Rightarrow> MixinDef option) \<Rightarrow> (string \<Rightarrow> FunctionDef option) \<Rightarrow>
   string \<Rightarrow> nat \<Rightarrow> error + string" where
  "transformExcludingRanges_loop code [] mixinRegistry functionRegistry result cursor =
     (case resolveFunctionCalls (resolveMixinApplications (drop cursor code) mixinRegistry)
             functionRegistry of
        Inl e \<Rightarrow> Inl e
      | Inr processedTail \<Rightarrow> Inr (result @ processedTail))"
| "transformExcludingRanges_loop code ((start, stop) # ranges) mixinRegistry functionRegistry
       result cursor =
     (case resolveFunctionCalls (resolveMixinApplications (slice code cursor start) mixinRegistry)
             functionRegistry of
        Inl e \<Rightarrow> Inl e
      | Inr processedChunk \<Rightarrow>
          transformExcludingRanges_loop code ranges mixinRegistry functionRegistry
            (result @ processedChunk @ slice code start stop) stop)"

definition transformExcludingRanges ::
  "string \<Rightarrow> span list \<Rightarrow> (string \<Rightarrow> MixinDef option) \<Rightarrow> (string \<Rightarrow> FunctionDef option) \<Rightarrow>
   error + string" where
  "transformExcludingRanges code exclude mixinRegistry functionRegistry =
     transformExcludingRanges_loop code (mergeRanges exclude) mixinRegistry functionRegistry [] 0"

section \<open>The declarations of the examples\<close>

definition nestedFunctions :: string where
  "nestedFunctions =
     ''@function --a(--x:1){result: var(--x);} @function --b(--y:2){result: --a(var(--y));}''"

definition boxMixin :: string where
  "boxMixin = ''@mixin --box(--c: red) { color: env(--c); }''"

definition wrapMixin :: "string \<Rightarrow> string" where
  \<comment> \<open>The declaration of \<open>--wrap\<close> with the given text between its name and its body.\<close>
  "wrapMixin paramList = ''@mixin --wrap'' @ paramList @ '' { @media (min-width: 1px) { @contents; } }''"

text \<open>
  A text with a mixin declared before a function, for the callers that strip the spans
  of the functions followed by those of the mixins.
\<close>

definition mixinBeforeFunction :: string where
  "mixinBeforeFunction = ''@mixin --m(){a} @function --f(){result: 1;} .k{c:d}''"

section \<open>Notions of the specification\<close>

definition bracketStep :: "char \<Rightarrow> int" where
  \<comment> \<open>What one character adds to the depth: the three families count alike.\<close>
  "bracketStep c = (if c \<in> OPEN_BRACKETS then 1 else if c \<in> CLOSE_BRACKETS then - 1 else 0)"

definition runningDepth :: "string \<Rightarrow> nat \<Rightarrow> nat \<Rightarrow> int" where
  \<comment> \<open>The depth after the characters at the offsets from \<open>start\<close> up to \<open>i\<close> (excluded),
      starting from depth 1.\<close>
  "runningDepth code start i = 1 + sum_list (map bracketStep (slice code start i))"

text \<open>
  The merging of spans in the words of the specification: sort by start offset; a span
  whose start is at most the running end of the current group joins that group, whose
  end becomes the larger of the two; any other span closes the group and opens the next.
\<close>

fun coalesce :: "span \<Rightarrow> span list \<Rightarrow> span list" where
  "coalesce (gs, ge) [] = [(gs, ge)]"
| "coalesce (gs, ge) ((s, e) # rest) =
     (if s \<le> ge then coalesce (gs, max ge e) rest else (gs, ge) # coalesce (s, e) rest)"

definition mergeSpans :: "span list \<Rightarrow> span list" where
  "mergeSpans spans = (case sort_key fst spans of [] \<Rightarrow> [] | g # rest \<Rightarrow> coalesce g rest)"

text \<open>
  A list of spans is separated when every span ends before the next one starts, and
  pairwise disjoint when no two of its spans, read as half-open intervals of offsets,
  share an offset.
\<close>

fun separated :: "span list \<Rightarrow> bool" where
  "separated [] = True"
| "separated [g] = True"
| "separated ((s1, e1) # (s2, e2) # rest) = (e1 < s2 \<and> separated ((s2, e2) # rest))"

fun pairwiseDisjoint :: "span list \<Rightarrow> bool" where
  "pairwiseDisjoint [] = True"
| "pairwiseDisjoint ((s, e) # rest) =
     (list_all (\<lambda>(s', e'). {s ..< e} \<inter> {s' ..< e'} = {}) rest \<and> pairwiseDisjoint rest)"

text \<open>
  Blanking in the words of the specification: an offset is covered when it lies in one
  of the spans; \<open>blanked spans i s\<close> is the text \<open>s\<close>, which starts at offset \<open>i\<close>, without
  its covered characters other than line feeds. A list of spans is ascending when every
  span starts at or before its end and ends at or before the start of the next.
\<close>

definition covered :: "span list \<Rightarrow> nat \<Rightarrow> bool" where
  "covered spans i = list_ex (\<lambda>(s, e). s \<le> i \<and> i < e) spans"

fun blanked :: "span list \<Rightarrow> nat \<Rightarrow> string \<Rightarrow> string" where
  "blanked spans i [] = []"
| "blanked spans i (c # cs) =
     (if covered spans i \<and> c \<noteq> CHR 0x0A then blanked spans (Suc i) cs
      else c # blanked spans (Suc i) cs)"

fun ascending :: "span list \<Rightarrow> bool" where
  "ascending [] = True"
| "ascending [(s, e)] = (s \<le> e)"
| "ascending ((s1, e1) # (s2, e2) # rest) = (s1 \<le> e1 \<and> e1 \<le> s2 \<and> ascending ((s2, e2) # rest))"

definition newlines :: "string \<Rightarrow> nat" where
  "newlines s = length (filter (\<lambda>c. c = CHR 0x0A) s)"

text \<open>
  Notions used in the proofs about scanning: the least length of a match of an
  expression, a match moved to the right by \<open>d\<close> offsets, an error whose position is
  moved likewise, and the first match the engine finds for an expression.
\<close>

primrec minlen :: "regex \<Rightarrow> nat" where
  "minlen (Lit w) = length w"
| "minlen (Cls k) = 1"
| "minlen (Star k) = 0"
| "minlen (Plus k) = 1"
| "minlen (Opt r) = 0"
| "minlen (Seq a b) = minlen a + minlen b"
| "minlen (Alt a b) = min (minlen a) (minlen b)"
| "minlen (Grp i r) = minlen r"
| "minlen Eol = 0"


fun shiftError :: "nat \<Rightarrow> error \<Rightarrow> error" where
  "shiftError d (UnmatchedBrace p) = UnmatchedBrace (d + p)"
| "shiftError d MissingResult = MissingResult"

definition firstMatch :: "regex \<Rightarrow> caps \<Rightarrow> string \<Rightarrow> (caps \<times> string) option" where
  "firstMatch r c s = (case rmatch r c s of [] \<Rightarrow> None | x # _ \<Rightarrow> Some x)"

text \<open>
  An identifier of the dialect is \<open>--\<close> followed by at least one letter, digit,
  underscore or hyphen: the texts the capture \<open>(--[\w-]+)\<close> can take.
\<close>

definition isIdentifier :: "string \<Rightarrow> bool" where
  "isIdentifier nm = (take 2 nm = ''--'' \<and> drop 2 nm \<noteq> [] \<and> list_all (in_class WordDash) (drop 2 nm))"


text \<open>The declaration of a function with the given name, parameter list and body.\<close>

definition functionDecl :: "string \<Rightarrow> string \<Rightarrow> string \<Rightarrow> string" where
  "functionDecl fnName paramStr body' =
     ''@function '' @ fnName @ ''('' @ paramStr @ ''){'' @ body' @ ''}''"

text \<open>
  A result clause, in the words of the specification \<open>result: <expr>;\<close>, read on the
  characters of a text: the word \<open>result\<close>, blanks if any, a colon and a first character
  of the expression, which is any character but \<open>;\<close>. A body has a result clause when
  one starts at some offset of it.
\<close>

definition resultClauseAt :: "string \<Rightarrow> bool" where
  "resultClauseAt s =
     (take 6 s = ''result'' \<and>
      (case dropWhile is_space (drop 6 s) of
         c # x # _ \<Rightarrow> c = CHR '':'' \<and> x \<noteq> CHR '';''
       | _ \<Rightarrow> False))"

fun hasResultClause :: "string \<Rightarrow> bool" where
  "hasResultClause [] = False"
| "hasResultClause (c # cs) = (resultClauseAt (c # cs) \<or> hasResultClause cs)"
text \<open>An expression matches at the start of a text when the engine finds some way to match it.\<close>

definition matches :: "regex \<Rightarrow> caps \<Rightarrow> string \<Rightarrow> bool" where
  "matches r c s = (rmatch r c s \<noteq> [])"

text \<open>
  The loop of \<open>resolveOnce\<close> stopped after the iterations for some of the matches: the
  same body as \<open>resolveOnce_loop\<close>, returning \<open>result\<close> and \<open>lastIdx\<close> as they are then,
  or the error thrown on the way.
\<close>

fun resolveOnce_run ::
  "string \<Rightarrow> (string \<Rightarrow> FunctionDef option) \<Rightarrow> rx_match list \<Rightarrow> string \<Rightarrow> nat \<Rightarrow>
   error + (string \<times> nat)" where
  "resolveOnce_run code registry [] result lastIdx = Inr (result, lastIdx)"
| "resolveOnce_run code registry (mt # ms) result lastIdx =
     (let start = index mt;
          argsStart = start + length (full mt);
          result1 = result @ slice code lastIdx start
      in case registry (capture mt 1) of
           None \<Rightarrow> resolveOnce_run code registry ms (result1 @ full mt) argsStart
         | Some def \<Rightarrow>
             (case findMatchingBrace code argsStart of
                Inl e \<Rightarrow> Inl e
              | Inr argsEnd \<Rightarrow>
                  (let args = splitByComma (slice code argsStart argsEnd)
                   in case extractResult (body def) of
                        Inl e \<Rightarrow> Inl e
                      | Inr expr \<Rightarrow>
                          resolveOnce_run code registry ms
                            (result1 @ substituteVars expr (params def) args)
                            (argsEnd + 1))))"


definition siteTail :: "(string \<times> string \<times> bool) option \<Rightarrow> string" where
  "siteTail b =
     (case b of
        None \<Rightarrow> '';''
      | Some (blk, ws, semi) \<Rightarrow> ''{'' @ blk @ ''}'' @ ws @ (if semi then '';'' else []))"





fun unmatched :: "string \<Rightarrow> string \<Rightarrow> bool" where
  "unmatched [] rest = True"
| "unmatched (x # xs) rest = (exec applyRegex (x # xs @ rest) = None \<and> unmatched xs rest)"






section \<open>Nested calls, mixin arguments and contents\<close>

text \<open>
  C1. With the registry extracted from the declarations of \<open>--a(--x:1)\<close> and
  \<open>--b(--y:2)\<close>, \<open>resolveFunctionCalls\<close> turns \<open>--b()\<close> into \<open>2\<close>, which is what
  substituting the argument \<open>2\<close> in the result expression of \<open>--a\<close> gives. The first
  pass gives \<open>--a(2)\<close>, the second \<open>2\<close>, the third changes nothing: three of the ten
  iterations are enough, and \<open>2\<close> is a fixed point of \<open>resolveOnce\<close>.
\<close>

theorem C1_nested_call_resolves:
  "case extractFunctions nestedFunctions (\<lambda>_. None) of
     Inl e \<Rightarrow> False
   | Inr (registry, spans) \<Rightarrow>
       resolveFunctionCalls ''--b()'' registry = Inr ''2'' \<and>
       (case registry ''--a'' of
          None \<Rightarrow> False
        | Some def \<Rightarrow>
            (case extractResult (body def) of
               Inl e \<Rightarrow> False
             | Inr expr \<Rightarrow>
                 resolveFunctionCalls ''--b()'' registry =
                   Inr (substituteVars expr (params def) [''2'']))) \<and>
       resolveOnce ''--b()'' registry = Inr ''--a(2)'' \<and>
       resolveOnce ''--a(2)'' registry = Inr ''2'' \<and>
       resolveOnce ''2'' registry = Inr ''2'' \<and>
       resolveFunctionCalls_loop 3 ''--b()'' registry = Inr ''2''"
  unfolding nestedFunctions_def by code_simp

text \<open>
  C2, as the code has it. A mixin takes a contents block only when its parameter list
  holds the marker \<open>@contents\<close>. Declared as \<open>@mixin --wrap(@contents) { ... }\<close>, the
  mixin is registered with the contents flag, and the application
  \<open>@apply --wrap { .a { color: red; } }\<close> gives the body of the mixin with the content
  of the block, \<open>.a { color: red; }\<close>, where the placeholder \<open>@contents;\<close> was (the
  blank that ends the body is not in the output).
\<close>

theorem C2_contents_marker_splices_block:
  "case extractMixins (wrapMixin ''(@contents)'') (\<lambda>_. None) of
     Inl e \<Rightarrow> False
   | Inr (registry, spans) \<Rightarrow>
       (case registry ''--wrap'' of
          None \<Rightarrow> False
        | Some def \<Rightarrow>
            hasContents def \<and> body def = '' @media (min-width: 1px) { @contents; } '') \<and>
       resolveMixinsOnce ''@apply --wrap { .a { color: red; } }'' registry =
         '' @media (min-width: 1px) { '' @ ''.a { color: red; }'' @ '' }'' \<and>
       resolveMixinApplications ''@apply --wrap { .a { color: red; } }'' registry =
         '' @media (min-width: 1px) { .a { color: red; } }''"
  unfolding wrapMixin_def by code_simp

text \<open>
  C2, as the specification states it, fails. Declared without a parameter list,
  \<open>--wrap\<close> is not registered at all, and the application becomes the comment for an
  unknown mixin. Declared with an empty parameter list it is registered without the
  contents flag, and the placeholder stays in the output.
\<close>

theorem C2_no_parameter_list_counterexample:
  "(case extractMixins (wrapMixin []) (\<lambda>_. None) of
      Inl e \<Rightarrow> False
    | Inr (registry, spans) \<Rightarrow>
        registry ''--wrap'' = None \<and>
        resolveMixinsOnce ''@apply --wrap { .a { color: red; } }'' registry =
          ''/* Unknown mixin: --wrap */}'') \<and>
   (case extractMixins (wrapMixin ''()'') (\<lambda>_. None) of
      Inl e \<Rightarrow> False
    | Inr (registry, spans) \<Rightarrow>
        resolveMixinsOnce ''@apply --wrap { .a { color: red; } }'' registry =
          '' @media (min-width: 1px) { @contents; } }'')"
  unfolding wrapMixin_def by code_simp

text \<open>
  C3. With the registry extracted from \<open>@mixin --box(--c: red) { color: env(--c); }\<close>,
  the application \<open>@apply --box(blue);\<close> resolves to the body with \<open>blue\<close> for the
  \<open>env()\<close> reference, and \<open>@apply --box;\<close> to the body with the default \<open>red\<close>. The body
  is the text between the braces, so the declarations \<open>color: blue;\<close> and
  \<open>color: red;\<close> come with the blank on each side that the declaration has there.
\<close>

theorem C3_argument_and_default:
  "case extractMixins boxMixin (\<lambda>_. None) of
     Inl e \<Rightarrow> False
   | Inr (registry, spans) \<Rightarrow>
       resolveMixinsOnce ''@apply --box(blue);'' registry = '' color: blue; '' \<and>
       resolveMixinApplications ''@apply --box(blue);'' registry = '' color: blue; '' \<and>
       trim (resolveMixinApplications ''@apply --box(blue);'' registry) = ''color: blue;'' \<and>
       resolveMixinsOnce ''@apply --box;'' registry = '' color: red; '' \<and>
       resolveMixinApplications ''@apply --box;'' registry = '' color: red; '' \<and>
       trim (resolveMixinApplications ''@apply --box;'' registry) = ''color: red;''"
  unfolding boxMixin_def by code_simp

section \<open>The brace matcher\<close>

lemma slice_Suc:
  "start \<le> i \<Longrightarrow> i < length code \<Longrightarrow> slice code start (Suc i) = slice code start i @ [code ! i]"
  by (simp add: slice_def Suc_diff_le take_Suc_conv_app_nth)

lemma runningDepth_Suc:
  "start \<le> i \<Longrightarrow> i < length code \<Longrightarrow>
   runningDepth code start (Suc i) = runningDepth code start i + bracketStep (code ! i)"
  by (simp add: runningDepth_def slice_Suc)

lemma runningDepth_start: "runningDepth code start start = 1"
  by (simp add: runningDepth_def slice_def)

lemma findMatchingBrace_loop_unfold:
  assumes "start \<le> i" "i < length code" "depth = runningDepth code start i"
  shows "findMatchingBrace_loop code start i depth =
    (if runningDepth code start (Suc i) = 0 then Inr i
     else findMatchingBrace_loop code start (Suc i) (runningDepth code start (Suc i)))"
proof -
  have "runningDepth code start (Suc i) =
      (if code ! i \<in> OPEN_BRACKETS then depth + 1
       else if code ! i \<in> CLOSE_BRACKETS then depth - 1 else depth)"
    using assms by (simp add: runningDepth_Suc bracketStep_def)
  then show ?thesis
    using assms(2) by (subst findMatchingBrace_loop.simps) (simp add: Let_def)
qed

lemma findMatchingBrace_loop_end:
  "\<not> i < length code \<Longrightarrow> findMatchingBrace_loop code start i depth = Inl (UnmatchedBrace start)"
  by (subst findMatchingBrace_loop.simps) simp

lemma all_from_Suc:
  assumes "P i"
  shows "(\<forall>j. Suc i \<le> j \<and> j < k \<longrightarrow> P j) = (\<forall>j. i \<le> j \<and> j < k \<longrightarrow> P j)"
proof
  assume a: "\<forall>j. Suc i \<le> j \<and> j < k \<longrightarrow> P j"
  show "\<forall>j. i \<le> j \<and> j < k \<longrightarrow> P j"
  proof (intro allI impI)
    fix j assume b: "i \<le> j \<and> j < k"
    show "P j"
    proof (cases "j = i")
      case True
      then show ?thesis using assms by simp
    next
      case False
      with b have "Suc i \<le> j \<and> j < k" by simp
      with a show ?thesis by blast
    qed
  qed
next
  assume a: "\<forall>j. i \<le> j \<and> j < k \<longrightarrow> P j"
  show "\<forall>j. Suc i \<le> j \<and> j < k \<longrightarrow> P j"
    using a Suc_leD by blast
qed

lemma first_zero:
  assumes "Q (i::nat)" "i < n"
  shows "(i = k) = (i \<le> k \<and> k < n \<and> Q k \<and> (\<forall>j. i \<le> j \<and> j < k \<longrightarrow> \<not> Q j))"
proof
  assume "i = k"
  then show "i \<le> k \<and> k < n \<and> Q k \<and> (\<forall>j. i \<le> j \<and> j < k \<longrightarrow> \<not> Q j)"
    using assms by auto
next
  assume r: "i \<le> k \<and> k < n \<and> Q k \<and> (\<forall>j. i \<le> j \<and> j < k \<longrightarrow> \<not> Q j)"
  show "i = k"
  proof (rule ccontr)
    assume "i \<noteq> k"
    with r have "i \<le> i \<and> i < k" by simp
    with r have "\<not> Q i" by blast
    with assms show False by simp
  qed
qed

lemma later_zero:
  assumes "\<not> Q i"
  shows "(Suc i \<le> k \<and> k < n \<and> Q k \<and> (\<forall>j. Suc i \<le> j \<and> j < k \<longrightarrow> \<not> Q j)) =
     (i \<le> k \<and> k < n \<and> Q k \<and> (\<forall>j. i \<le> j \<and> j < k \<longrightarrow> \<not> Q j))"
proof -
  have "Q k \<Longrightarrow> (Suc i \<le> k) = (i \<le> k)"
    using assms by (cases "i = k") auto
  then show ?thesis
    using all_from_Suc[of "\<lambda>j. \<not> Q j" i k, OF assms] by blast
qed

lemma findMatchingBrace_loop_Inr:
  "start \<le> i \<Longrightarrow> depth = runningDepth code start i \<Longrightarrow>
   (findMatchingBrace_loop code start i depth = Inr k) =
   (i \<le> k \<and> k < length code \<and> runningDepth code start (Suc k) = 0 \<and>
    (\<forall>j. i \<le> j \<and> j < k \<longrightarrow> runningDepth code start (Suc j) \<noteq> 0))"
proof (induction "length code - i" arbitrary: i depth)
  case 0
  then have "\<not> i < length code" by simp
  then show ?case by (auto simp: findMatchingBrace_loop_end)
next
  case (Suc n)
  then have lt: "i < length code" by simp
  let ?d = "runningDepth code start (Suc i)"
  note unf = findMatchingBrace_loop_unfold[OF Suc.prems(1) lt Suc.prems(2)]
  show ?case
  proof (cases "?d = 0")
    case True
    show ?thesis
      using first_zero[of "\<lambda>j. runningDepth code start (Suc j) = 0" i "length code" k, OF True lt]
        True unf by auto
  next
    case False
    have ih: "(findMatchingBrace_loop code start (Suc i) ?d = Inr k) =
        (Suc i \<le> k \<and> k < length code \<and> runningDepth code start (Suc k) = 0 \<and>
         (\<forall>j. Suc i \<le> j \<and> j < k \<longrightarrow> runningDepth code start (Suc j) \<noteq> 0))"
      using Suc.hyps(2) Suc.prems(1) by (intro Suc.hyps(1)) auto
    show ?thesis
      using later_zero[of "\<lambda>j. runningDepth code start (Suc j) = 0" i k "length code", OF False]
        False unf ih by simp
  qed
qed

lemma findMatchingBrace_loop_Inl:
  "start \<le> i \<Longrightarrow> depth = runningDepth code start i \<Longrightarrow>
   (findMatchingBrace_loop code start i depth = Inl e) =
   (e = UnmatchedBrace start \<and>
    (\<forall>j. i \<le> j \<and> j < length code \<longrightarrow> runningDepth code start (Suc j) \<noteq> 0))"
proof (induction "length code - i" arbitrary: i depth)
  case 0
  then have "\<not> i < length code" by simp
  then show ?case by (auto simp: findMatchingBrace_loop_end)
next
  case (Suc n)
  then have lt: "i < length code" by simp
  let ?d = "runningDepth code start (Suc i)"
  note unf = findMatchingBrace_loop_unfold[OF Suc.prems(1) lt Suc.prems(2)]
  show ?case
  proof (cases "?d = 0")
    case True
    then show ?thesis using unf lt by auto
  next
    case False
    have ih: "(findMatchingBrace_loop code start (Suc i) ?d = Inl e) =
        (e = UnmatchedBrace start \<and>
         (\<forall>j. Suc i \<le> j \<and> j < length code \<longrightarrow> runningDepth code start (Suc j) \<noteq> 0))"
      using Suc.hyps(2) Suc.prems(1) by (intro Suc.hyps(1)) auto
    show ?thesis
      using all_from_Suc[of "\<lambda>j. runningDepth code start (Suc j) \<noteq> 0" i "length code", OF False]
        False unf ih by simp
  qed
qed

text \<open>
  C7. \<open>findMatchingBrace code start\<close> returns the offset \<open>k\<close> exactly when \<open>k\<close> is the
  first offset from \<open>start\<close> on, inside the text, after which the running depth is zero;
  the depth starts at 1 and every opening bracket of the three families adds one, every
  closing bracket of the three families takes one away, whatever bracket was opened. It
  throws exactly when the depth is zero after no offset of the text from \<open>start\<close> on, and
  the error it throws is the unmatched brace at \<open>start\<close>.
\<close>

theorem C7_findMatchingBrace:
  "((findMatchingBrace code start = Inr k) =
     (start \<le> k \<and> k < length code \<and> runningDepth code start (Suc k) = 0 \<and>
      (\<forall>j. start \<le> j \<and> j < k \<longrightarrow> runningDepth code start (Suc j) \<noteq> 0))) \<and>
   ((findMatchingBrace code start = Inl e) =
     (e = UnmatchedBrace start \<and>
      (\<forall>j. start \<le> j \<and> j < length code \<longrightarrow> runningDepth code start (Suc j) \<noteq> 0)))"
  by (simp add: findMatchingBrace_def findMatchingBrace_loop_Inr findMatchingBrace_loop_Inl
      runningDepth_start)

theorem C7_findMatchingBrace_witness:
  "findMatchingBrace ''a(b]c)d'' 0 = Inr 5 \<and>
   runningDepth ''a(b]c)d'' 0 (Suc 5) = 0 \<and> runningDepth ''a(b]c)d'' 0 (Suc 2) \<noteq> 0 \<and>
   findMatchingBrace ''a(b]c'' 0 = Inl (UnmatchedBrace 0) \<and>
   runningDepth ''a(b]c'' 0 (Suc 2) \<noteq> 0"
proof -
  have found: "findMatchingBrace ''a(b]c)d'' 0 = Inr 5"
    by code_simp
  have unmatched: "findMatchingBrace ''a(b]c'' 0 = Inl (UnmatchedBrace 0)"
    by code_simp
  have a: "runningDepth ''a(b]c)d'' 0 (Suc 5) = 0 \<and>
      (\<forall>j. 0 \<le> j \<and> j < 5 \<longrightarrow> runningDepth ''a(b]c)d'' 0 (Suc j) \<noteq> 0)"
    using C7_findMatchingBrace[of "''a(b]c)d''" 0 5] found by simp
  have b: "\<forall>j. 0 \<le> j \<and> j < length ''a(b]c'' \<longrightarrow> runningDepth ''a(b]c'' 0 (Suc j) \<noteq> 0"
    using C7_findMatchingBrace[of "''a(b]c''" 0 0 "UnmatchedBrace 0"] unmatched by simp
  have "0 \<le> (2::nat) \<and> (2::nat) < 5 \<longrightarrow> runningDepth ''a(b]c)d'' 0 (Suc 2) \<noteq> 0"
    using a by blast
  then have a2: "runningDepth ''a(b]c)d'' 0 (Suc 2) \<noteq> 0"
    by simp
  have "0 \<le> (2::nat) \<and> (2::nat) < length ''a(b]c'' \<longrightarrow> runningDepth ''a(b]c'' 0 (Suc 2) \<noteq> 0"
    using b by blast
  then have b2: "runningDepth ''a(b]c'' 0 (Suc 2) \<noteq> 0"
    by simp
  show ?thesis
    using found unmatched a a2 b2 by blast
qed

section \<open>The merging of spans\<close>

lemma mergeRanges_loop_coalesce:
  "mergeRanges_loop rest curStart curEnd merged = merged @ coalesce (curStart, curEnd) rest"
  by (induction rest arbitrary: curStart curEnd merged) auto

lemma mergeRanges_mergeSpans: "mergeRanges ranges = mergeSpans ranges"
  by (simp add: mergeRanges_def mergeSpans_def mergeRanges_loop_coalesce split: list.splits)

lemma coalesce_hd: "\<exists>ge' tl. coalesce (gs, ge) rest = (gs, ge') # tl \<and> ge \<le> ge'"
proof (induction rest arbitrary: ge)
  case Nil
  then show ?case by simp
next
  case (Cons a rest)
  obtain s e where a: "a = (s, e)" by (cases a)
  show ?case
  proof (cases "s \<le> ge")
    case True
    from Cons[of "max ge e"] obtain ge' tl where
      "coalesce (gs, max ge e) rest = (gs, ge') # tl" "max ge e \<le> ge'" by blast
    then show ?thesis using True a by auto
  next
    case False
    then show ?thesis using a by simp
  qed
qed

lemma coalesce_starts: "fst ` set (coalesce g rest) \<subseteq> insert (fst g) (fst ` set rest)"
proof (induction g rest rule: coalesce.induct)
  case (1 gs ge)
  then show ?case by simp
next
  case (2 gs ge s e rest)
  then show ?case by (cases "s \<le> ge") auto
qed

lemma coalesce_sorted:
  "sorted (map fst (g # rest)) \<Longrightarrow> sorted (map fst (coalesce g rest))"
proof (induction g rest rule: coalesce.induct)
  case (1 gs ge)
  then show ?case by simp
next
  case (2 gs ge s e rest)
  show ?case
  proof (cases "s \<le> ge")
    case True
    have "sorted (map fst ((gs, max ge e) # rest))" using 2(3) by auto
    then show ?thesis using 2(1)[OF True] True by simp
  next
    case False
    have s: "sorted (map fst ((s, e) # rest))" using 2(3) by simp
    have sub: "fst ` set (coalesce (s, e) rest) \<subseteq> insert s (fst ` set rest)"
      using coalesce_starts[of "(s, e)" rest] by simp
    have "\<forall>y \<in> insert s (fst ` set rest). gs \<le> y"
      using 2(3) by auto
    then have "\<forall>x \<in> set (coalesce (s, e) rest). gs \<le> fst x"
      using sub by blast
    then show ?thesis using 2(2)[OF False s] False by simp
  qed
qed

lemma coalesce_separated: "separated (coalesce g rest)"
proof (induction g rest rule: coalesce.induct)
  case (1 gs ge)
  then show ?case by simp
next
  case (2 gs ge s e rest)
  show ?case
  proof (cases "s \<le> ge")
    case True
    then show ?thesis using 2(1) by simp
  next
    case False
    obtain ge' tl where "coalesce (s, e) rest = (s, ge') # tl"
      using coalesce_hd by blast
    then show ?thesis using 2(2)[OF False] False by simp
  qed
qed

lemma coalesce_id: "separated (g # rest) \<Longrightarrow> coalesce g rest = g # rest"
proof (induction g rest rule: coalesce.induct)
  case (1 gs ge)
  then show ?case by simp
next
  case (2 gs ge s e rest)
  then show ?case by auto
qed

lemma separated_after:
  "separated ((s, e) # rest) \<Longrightarrow> sorted (map fst ((s, e) # rest)) \<Longrightarrow>
   \<forall>(s', e') \<in> set rest. e < s'"
proof (induction rest arbitrary: s e)
  case Nil
  then show ?case by simp
next
  case (Cons a rest)
  obtain s2 e2 where a: "a = (s2, e2)" by (cases a)
  have "e < s2" using Cons.prems(1) a by simp
  moreover have "\<forall>x \<in> set rest. s2 \<le> fst x" using Cons.prems(2) a by simp
  ultimately show ?case using a by auto
qed

lemma separated_tl: "separated (g # rest) \<Longrightarrow> separated rest"
  by (cases g; cases rest) auto

lemma separated_disjoint:
  "separated spans \<Longrightarrow> sorted (map fst spans) \<Longrightarrow> pairwiseDisjoint spans"
proof (induction spans)
  case Nil
  then show ?case by simp
next
  case (Cons g rest)
  obtain s e where g: "g = (s, e)" by (cases g)
  have "\<forall>(s', e') \<in> set rest. e < s'"
    using separated_after Cons.prems g by blast
  then have "list_all (\<lambda>(s', e'). {s ..< e} \<inter> {s' ..< e'} = {}) rest"
    by (auto simp: list_all_iff)
  moreover have "pairwiseDisjoint rest"
    using Cons separated_tl by auto
  ultimately show ?case using g by simp
qed

lemma mergeSpans_props:
  "sorted (map fst (mergeSpans spans))" "separated (mergeSpans spans)"
proof -
  show "sorted (map fst (mergeSpans spans))"
  proof (cases "sort_key fst spans")
    case Nil
    then show ?thesis by (simp add: mergeSpans_def)
  next
    case (Cons g rest)
    have "sorted (map fst (g # rest))"
      using sorted_sort_key[of fst spans] Cons by simp
    then show ?thesis using Cons coalesce_sorted by (simp add: mergeSpans_def)
  qed
  show "separated (mergeSpans spans)"
    by (simp add: mergeSpans_def coalesce_separated split: list.splits)
qed

lemma mergeSpans_fixed:
  assumes "sorted (map fst spans)" "separated spans"
  shows "mergeSpans spans = spans"
proof -
  have sk: "sort_key fst spans = spans"
    using assms(1) by (rule sort_key_id_if_sorted)
  show ?thesis
    unfolding mergeSpans_def sk using assms(2) coalesce_id by (cases spans) auto
qed

lemma mergeSpans_idem: "mergeSpans (mergeSpans spans) = mergeSpans spans"
  using mergeSpans_props by (rule mergeSpans_fixed)

text \<open>
  C8. \<open>mergeRanges\<close> is idempotent; for every list of spans its output is sorted by
  start offset, its spans are pairwise disjoint (each ends before the next starts), and
  it is the list the specification describes: the spans sorted by start, a span joining
  the current group exactly when its start is at most the running end of the group.
\<close>

theorem C8_mergeRanges:
  "mergeRanges (mergeRanges ranges) = mergeRanges ranges \<and>
   sorted (map fst (mergeRanges ranges)) \<and>
   pairwiseDisjoint (mergeRanges ranges) \<and>
   separated (mergeRanges ranges) \<and>
   mergeRanges ranges = mergeSpans ranges"
  using mergeSpans_idem mergeSpans_props separated_disjoint
  by (simp add: mergeRanges_mergeSpans)

section \<open>Scanning with a global expression\<close>

lemma search_Cons_None:
  "exec r (x # xs) = None \<Longrightarrow>
   search r (x # xs) = (case search r xs of None \<Rightarrow> None | Some (k, c, n) \<Rightarrow> Some (Suc k, c, n))"
  by simp

lemma search_here:
  "exec r s = Some (c, n) \<Longrightarrow> search r s = Some (0, c, n)"
  by (cases s) auto

lemma matchAll_skip:
  assumes "exec r (x # xs) = None"
  shows "matchAll r i (x # xs) = matchAll r (Suc i) xs"
proof (cases "search r xs")
  case None
  then show ?thesis
    using assms by (simp add: matchAll.simps[of r i "x # xs"] matchAll.simps[of r "Suc i" xs])
next
  case (Some a)
  obtain k c n where a: "a = (k, c, n)" by (cases a)
  show ?thesis
    using assms Some a
    by (simp add: matchAll.simps[of r i "x # xs"] matchAll.simps[of r "Suc i" xs])
qed

lemma matchAll_here:
  assumes "exec r s = Some (c, n)"
  shows "matchAll r i s =
    \<lparr>index = i, full = take n s, groups = c\<rparr> #
    (if length s < max 1 n then [] else matchAll r (i + max 1 n) (drop (max 1 n) s))"
  using search_here[OF assms] by (simp add: matchAll.simps[of r i s])

lemma exec_Cls:
  "exec (Cls k) s = (case s of [] \<Rightarrow> None | x # t \<Rightarrow> if in_class k x then Some (\<lambda>_. None, 1) else None)"
  by (auto simp: exec_def split: list.splits)

lemma slice_snoc:
  "l0 \<le> length p \<Longrightarrow> slice (p @ x # xs) l0 (Suc (length p)) = slice (p @ x # xs) l0 (length p) @ [x]"
  by (simp add: slice_def Suc_diff_le take_Suc_conv_app_nth nth_append)

lemma splice_blank:
  "l0 \<le> length p \<Longrightarrow>
   splice (p @ s) (\<lambda>mt. []) (matchAll (Cls k) (length p) s) l0 =
     slice (p @ s) l0 (length p) @ filter (\<lambda>c. \<not> in_class k c) s"
proof (induction s arbitrary: p l0)
  case Nil
  then show ?case by (simp add: matchAll.simps[of _ _ "[]"] exec_Cls slice_def)
next
  case (Cons x xs)
  show ?case
  proof (cases "in_class k x")
    case True
    have ih: "splice ((p @ [x]) @ xs) (\<lambda>mt. []) (matchAll (Cls k) (Suc (length p)) xs) (Suc (length p)) =
       filter (\<lambda>c. \<not> in_class k c) xs"
      using Cons.IH[of "Suc (length p)" "p @ [x]"] by (simp add: slice_def)
    from True have "exec (Cls k) (x # xs) = Some (\<lambda>_. None, 1)" by (simp add: exec_Cls)
    from matchAll_here[OF this, of "length p"] show ?thesis
      using True ih by simp
  next
    case False
    have ih: "splice ((p @ [x]) @ xs) (\<lambda>mt. []) (matchAll (Cls k) (Suc (length p)) xs) l0 =
       slice ((p @ [x]) @ xs) l0 (Suc (length p)) @ filter (\<lambda>c. \<not> in_class k c) xs"
      using Cons.IH[of l0 "p @ [x]"] Cons.prems by simp
    from False have "exec (Cls k) (x # xs) = None" by (simp add: exec_Cls)
    from matchAll_skip[OF this, of "length p"] show ?thesis
      using False ih slice_snoc[OF Cons.prems, of x xs] by simp
  qed
qed

lemma blank_filter: "blank s = filter (\<lambda>c. c = CHR 0x0A) s"
  using splice_blank[of 0 "[]" s "NoneOf [CHR 0x0A]"]
  by (simp add: blank_def replaceStr_def replaceFn_def slice_def)


section \<open>Blanking of spans\<close>

lemma stripDefinitions_loop_append:
  "stripDefinitions_loop (xs @ ys) r = stripDefinitions_loop ys (stripDefinitions_loop xs r)"
  by (induction xs arbitrary: r) auto

lemma stripDefinitions_Cons:
  "stripDefinitions code ((s, e) # rest) =
     (let r = stripDefinitions code rest in slice r 0 s @ blank (slice r s e) @ drop e r)"
  by (simp add: stripDefinitions_def stripDefinitions_loop_append Let_def)

lemma split3:
  assumes "s \<le> e"
  shows "take s r @ slice r s e @ drop e r = r"
proof -
  have "drop (e - s) (drop s r) = drop e r"
    using assms by simp
  then have "slice r s e @ drop e r = take (e - s) (drop s r) @ drop (e - s) (drop s r)"
    by (simp only: slice_def)
  also have "\<dots> = drop s r"
    by (rule append_take_drop_id)
  finally show ?thesis by simp
qed

lemma newlines_append: "newlines (a @ b) = newlines a + newlines b"
  by (simp add: newlines_def)

lemma newlines_blank: "newlines (blank s) = newlines s"
  by (simp add: newlines_def blank_filter)

lemma newlines_step:
  assumes "s \<le> e"
  shows "newlines (slice r 0 s @ blank (slice r s e) @ drop e r) = newlines r"
proof -
  have "newlines (slice r 0 s @ blank (slice r s e) @ drop e r) =
      newlines (take s r @ slice r s e @ drop e r)"
    by (simp add: newlines_append newlines_blank slice_def)
  then show ?thesis using split3[OF assms] by simp
qed

lemma newlines_loop:
  "list_all (\<lambda>(s, e). s \<le> e) spans \<Longrightarrow> newlines (stripDefinitions_loop spans r) = newlines r"
proof (induction spans arbitrary: r)
  case Nil
  then show ?case by simp
next
  case (Cons a spans)
  obtain s e where a: "a = (s, e)" by (cases a)
  then show ?case using Cons newlines_step[of s e r] by simp
qed

lemma newlines_stripDefinitions:
  "list_all (\<lambda>(s, e). s \<le> e) spans \<Longrightarrow> newlines (stripDefinitions code spans) = newlines code"
  by (simp add: stripDefinitions_def newlines_loop)

lemma blanked_append:
  "blanked spans i (a @ b) = blanked spans i a @ blanked spans (i + length a) b"
  by (induction a arbitrary: i) auto

lemma blanked_uncovered:
  "(\<forall>j. i \<le> j \<and> j < i + length a \<longrightarrow> \<not> covered spans j) \<Longrightarrow> blanked spans i a = a"
proof (induction a arbitrary: i)
  case Nil
  then show ?case by simp
next
  case (Cons c cs)
  have "\<not> covered spans i" using Cons.prems by simp
  moreover have "blanked spans (Suc i) cs = cs"
    using Cons.prems by (intro Cons.IH) auto
  ultimately show ?case by simp
qed

lemma blanked_covered:
  "(\<forall>j. i \<le> j \<and> j < i + length a \<longrightarrow> covered spans j) \<Longrightarrow>
   blanked spans i a = filter (\<lambda>c. c = CHR 0x0A) a"
proof (induction a arbitrary: i)
  case Nil
  then show ?case by simp
next
  case (Cons c cs)
  have "covered spans i" using Cons.prems by simp
  moreover have "blanked spans (Suc i) cs = filter (\<lambda>c. c = CHR 0x0A) cs"
    using Cons.prems by (intro Cons.IH) auto
  ultimately show ?case by simp
qed

lemma blanked_cong:
  "(\<forall>j. i \<le> j \<and> j < i + length a \<longrightarrow> covered spans j = covered spans' j) \<Longrightarrow>
   blanked spans i a = blanked spans' i a"
proof (induction a arbitrary: i)
  case Nil
  then show ?case by simp
next
  case (Cons c cs)
  have "covered spans i = covered spans' i" using Cons.prems by simp
  moreover have "blanked spans (Suc i) cs = blanked spans' (Suc i) cs"
    using Cons.prems by (intro Cons.IH) auto
  ultimately show ?case by simp
qed

lemma take_blanked:
  "(\<forall>j. i \<le> j \<and> j < i + m \<longrightarrow> \<not> covered spans j) \<Longrightarrow>
   take m (blanked spans i code) = take m code"
proof (induction code arbitrary: i m)
  case Nil
  then show ?case by simp
next
  case (Cons c cs)
  show ?case
  proof (cases m)
    case 0
    then show ?thesis by simp
  next
    case (Suc m')
    have "\<not> covered spans i" using Cons.prems Suc by simp
    moreover have "take m' (blanked spans (Suc i) cs) = take m' cs"
      using Cons.prems Suc by (intro Cons.IH) auto
    ultimately show ?thesis using Suc by simp
  qed
qed

lemma drop_blanked:
  "(\<forall>j. i \<le> j \<and> j < i + m \<longrightarrow> \<not> covered spans j) \<Longrightarrow>
   drop m (blanked spans i code) = blanked spans (i + m) (drop m code)"
proof (induction code arbitrary: i m)
  case Nil
  then show ?case by simp
next
  case (Cons c cs)
  show ?case
  proof (cases m)
    case 0
    then show ?thesis by simp
  next
    case (Suc m')
    have "\<not> covered spans i" using Cons.prems Suc by simp
    moreover have "drop m' (blanked spans (Suc i) cs) = blanked spans (Suc i + m') (drop m' cs)"
      using Cons.prems Suc by (intro Cons.IH) auto
    ultimately show ?thesis using Suc by simp
  qed
qed

lemma ascending_tl: "ascending (a # rest) \<Longrightarrow> ascending rest"
  by (cases a; cases rest) auto

lemma ascending_hd: "ascending ((s, e) # rest) \<Longrightarrow> s \<le> e"
  by (cases rest) auto

lemma ascending_after:
  "ascending ((s, e) # rest) \<Longrightarrow> \<forall>(s', e') \<in> set rest. e \<le> s'"
proof (induction rest arbitrary: s e)
  case Nil
  then show ?case by simp
next
  case (Cons a rest)
  obtain s2 e2 where a: "a = (s2, e2)" by (cases a)
  have 1: "e \<le> s2" "ascending ((s2, e2) # rest)" using Cons.prems a by auto
  have "s2 \<le> e2" using 1(2) by (rule ascending_hd)
  with Cons.IH[OF 1(2)] 1(1) show ?case using a by auto
qed

lemma uncovered_before:
  "ascending ((s, e) # rest) \<Longrightarrow> j < e \<Longrightarrow> \<not> covered rest j"
  using ascending_after[of s e rest] by (auto simp: covered_def list_ex_iff)


lemma covered_Cons: "covered ((s, e) # rest) j = ((s \<le> j \<and> j < e) \<or> covered rest j)"
  by (simp add: covered_def)

lemma strip_step_code:
  assumes asc: "ascending ((s, e) # rest)" and r: "r = blanked rest 0 code"
  shows "slice r 0 s @ blank (slice r s e) @ drop e r =
    take s code @ filter (\<lambda>c. c = CHR 0x0A) (slice code s e) @ blanked rest e (drop e code)"
proof -
  have se: "s \<le> e" using asc by (rule ascending_hd)
  have unc: "\<And>j. j < e \<Longrightarrow> \<not> covered rest j"
    using uncovered_before[OF asc] by blast
  have t1: "slice r 0 s = take s code"
    using take_blanked[of 0 s rest code] unc se by (simp add: slice_def r)
  have d: "drop s r = blanked rest s (drop s code)"
    using drop_blanked[of 0 s rest code] unc se by (simp add: r)
  have t2: "slice r s e = slice code s e"
    using take_blanked[of s "e - s" rest "drop s code"] unc se by (simp add: slice_def d)
  have t3: "drop e r = blanked rest e (drop e code)"
    using drop_blanked[of 0 e rest code] unc by (simp add: r)
  show ?thesis by (simp add: t1 t2 t3 blank_filter)
qed

lemma strip_step_spec:
  assumes asc: "ascending ((s, e) # rest)"
  shows "blanked ((s, e) # rest) 0 code =
    take s code @ filter (\<lambda>c. c = CHR 0x0A) (slice code s e) @ blanked rest e (drop e code)"
proof -
  let ?sp = "(s, e) # rest"
  let ?A = "take s code" and ?B = "slice code s e" and ?C = "drop e code"
  have se: "s \<le> e" using asc by (rule ascending_hd)
  have unc: "\<And>j. j < e \<Longrightarrow> \<not> covered rest j"
    using uncovered_before[OF asc] by blast
  have "blanked ?sp 0 code = blanked ?sp 0 (?A @ ?B @ ?C)"
    using split3[OF se, of code] by simp
  also have "\<dots> = blanked ?sp 0 ?A @ blanked ?sp (length ?A) ?B @
      blanked ?sp (length ?A + length ?B) ?C"
    by (simp add: blanked_append)
  finally have split: "blanked ?sp 0 code = blanked ?sp 0 ?A @ blanked ?sp (length ?A) ?B @
      blanked ?sp (length ?A + length ?B) ?C" .
  have a: "blanked ?sp 0 ?A = ?A"
  proof (rule blanked_uncovered, intro allI impI)
    fix j assume "0 \<le> j \<and> j < 0 + length ?A"
    then have "j < s" by simp
    then show "\<not> covered ?sp j" using unc[of j] se by (simp add: covered_Cons)
  qed
  have b: "blanked ?sp (length ?A) ?B = filter (\<lambda>c. c = CHR 0x0A) ?B"
  proof (rule blanked_covered, intro allI impI)
    fix j assume j: "length ?A \<le> j \<and> j < length ?A + length ?B"
    then have "?B \<noteq> []" by auto
    then have "s < length code" by (auto simp: slice_def)
    then have "s \<le> j \<and> j < e" using j by (auto simp: slice_def)
    then show "covered ?sp j" by (simp add: covered_Cons)
  qed
  have c: "blanked ?sp (length ?A + length ?B) ?C = blanked rest e ?C"
  proof (cases "?C = []")
    case True
    then show ?thesis by simp
  next
    case False
    then have "e < length code" by simp
    then have len: "length ?A + length ?B = e" using se by (simp add: slice_def)
    show ?thesis unfolding len
    proof (rule blanked_cong, intro allI impI)
      fix j assume "e \<le> j \<and> j < e + length ?C"
      then show "covered ?sp j = covered rest j" by (simp add: covered_Cons)
    qed
  qed
  show ?thesis using split a b c by simp
qed

lemma stripDefinitions_blanked:
  "ascending spans \<Longrightarrow> stripDefinitions code spans = blanked spans 0 code"
proof (induction spans)
  case Nil
  have "blanked [] 0 code = code"
    by (rule blanked_uncovered) (simp add: covered_def)
  then show ?case by (simp add: stripDefinitions_def)
next
  case (Cons a rest)
  obtain s e where a: "a = (s, e)" by (cases a)
  have "stripDefinitions code rest = blanked rest 0 code"
    using Cons ascending_tl by blast
  then show ?case
    using strip_step_code[of s e rest _ code] strip_step_spec[of s e rest code] Cons.prems
    by (simp add: a stripDefinitions_Cons)
qed

text \<open>
  C9. \<open>stripDefinitions\<close> blanks the spans from the last of the list to the first, each
  at its offsets in the text as it then is. For every ascending list of spans the output
  is the text without the characters inside the spans that are not line feeds
  (\<open>stripDefinitions_blanked\<close>), and the number of line feeds is kept for every list
  of spans that start at or before their end (\<open>newlines_stripDefinitions\<close>). For
  disjoint spans that are not in ascending order the output is wrong, and such lists
  reach the function: where functions and mixins are stripped together, it is given the
  spans of the functions followed by the spans of the mixins, with the text that
  \<open>transformExcludingRanges\<close> returns. In the text \<open>mixinBeforeFunction\<close> the mixin is
  declared first, \<open>transformExcludingRanges\<close> returns the text as it is, the span
  \<open>(0, 15)\<close> of the mixin comes last in the list, and after it is blanked the span
  \<open>(16, 43)\<close> of the function lies 15 offsets too far to the right: the output keeps the
  head of the function declaration and loses the rule \<open>.k{c:d}\<close>, which no span covers.
  With the same spans sorted by \<open>mergeRanges\<close> first, as \<open>transformExcludingRanges\<close> does
  for its own use, the two declarations are blanked and the rule is kept.
\<close>

theorem C9_function_after_mixin_stripped_wrongly:
  "map_sum id snd (extractFunctions mixinBeforeFunction (\<lambda>_. None)) = Inr [(16, 43)] \<and>
   map_sum id snd (extractMixins mixinBeforeFunction (\<lambda>_. None)) = Inr [(0, 15)] \<and>
   pairwiseDisjoint ([(16, 43)] @ [(0, 15)]) \<and>
   transformExcludingRanges mixinBeforeFunction ([(16, 43)] @ [(0, 15)])
     mixinRegistry functionRegistry = Inr mixinBeforeFunction \<and>
   stripDefinitions mixinBeforeFunction ([(16, 43)] @ [(0, 15)]) = '' @function --f()'' \<and>
   blanked ([(16, 43)] @ [(0, 15)]) 0 mixinBeforeFunction = ''  .k{c:d}'' \<and>
   stripDefinitions mixinBeforeFunction (mergeRanges ([(16, 43)] @ [(0, 15)])) = ''  .k{c:d}''"
  unfolding mixinBeforeFunction_def by code_simp

section \<open>Scanning and resolution\<close>

lemma rmatch_minlen:
  "(c', s') \<in> set (rmatch r c s) \<Longrightarrow> length s' + minlen r \<le> length s"
proof (induction r arbitrary: c s c' s')
  case (Lit w)
  then show ?case by (auto split: if_splits) (metis length_take min.cobounded1 le_add_diff_inverse2 min_def)
next
  case (Cls k)
  then show ?case by (auto split: list.splits if_splits)
next
  case (Star k)
  then show ?case by auto
next
  case (Plus k)
  have "length (takeWhile (in_class k) s) \<le> length s" by (rule length_takeWhile_le)
  with Plus show ?case by auto
next
  case (Opt r)
  then show ?case by fastforce
next
  case (Seq a b)
  from Seq.prems obtain c1 s1 where 1: "(c1, s1) \<in> set (rmatch a c s)"
    and 2: "(c', s') \<in> set (rmatch b c1 s1)" by auto
  from Seq.IH(1)[OF 1] Seq.IH(2)[OF 2] show ?case by simp
next
  case (Alt a b)
  then show ?case by fastforce
next
  case (Grp i r)
  then show ?case by fastforce
next
  case Eol
  then show ?case by (auto split: if_splits)
qed

lemma exec_bounds:
  assumes "exec r s = Some (c, n)"
  shows "minlen r \<le> n \<and> n \<le> length s"
proof -
  from assms obtain s' rest where l: "rmatch r (\<lambda>_. None) s = (c, s') # rest" and n: "n = length s - length s'"
    by (auto simp: exec_def split: list.splits)
  then have "(c, s') \<in> set (rmatch r (\<lambda>_. None) s)" by simp
  from rmatch_minlen[OF this] n show ?thesis by simp
qed

lemma search_bounds:
  "search r s = Some (k, c, n) \<Longrightarrow> minlen r \<le> n \<and> k + n \<le> length s"
proof (induction s arbitrary: k)
  case Nil
  then show ?case using exec_bounds[of r "[]"] by (auto split: option.splits)
next
  case (Cons x xs)
  show ?case
  proof (cases "exec r (x # xs)")
    case None
    with Cons.prems obtain k' where "search r xs = Some (k', c, n)" "k = Suc k'"
      by (auto split: option.splits)
    with Cons.IH show ?thesis by simp
  next
    case (Some a)
    with Cons.prems have "exec r (x # xs) = Some (c, n)" "k = 0" by (auto split: prod.splits)
    with exec_bounds[of r "x # xs" c n] show ?thesis by simp
  qed
qed

lemma matchAll_none: "search r s = None \<Longrightarrow> matchAll r i s = []"
  by (simp add: matchAll.simps[of r i s])

lemma matchAll_first:
  assumes "search r s = Some (k, c, n)" "1 \<le> minlen r"
  shows "matchAll r i s =
    \<lparr>index = i + k, full = take n (drop k s), groups = c\<rparr> # matchAll r (i + k + n) (drop (k + n) s)"
proof -
  from search_bounds[OF assms(1)] assms(2) have "1 \<le> n" "k + n \<le> length s" by auto
  then show ?thesis using assms(1) by (simp add: matchAll.simps[of r i s] max_def)
qed



lemma findMatchingBrace_loop_shift:
  "findMatchingBrace_loop (p @ s) (length p + st) (length p + i) d =
     map_sum (shiftError (length p)) (\<lambda>j. length p + j) (findMatchingBrace_loop s st i d)"
proof (induction "length s - i" arbitrary: i d)
  case 0
  then show ?case
    by (simp add: findMatchingBrace_loop.simps[of _ _ "length p + i"]
        findMatchingBrace_loop.simps[of _ _ i])
next
  case (Suc m)
  then have lt: "i < length s" by simp
  let ?d = "if s ! i \<in> OPEN_BRACKETS then d + 1 else if s ! i \<in> CLOSE_BRACKETS then d - 1 else d"
  have l: "findMatchingBrace_loop (p @ s) (length p + st) (length p + i) d =
      (if ?d = 0 then Inr (length p + i)
       else findMatchingBrace_loop (p @ s) (length p + st) (length p + Suc i) ?d)"
    using lt by (subst findMatchingBrace_loop.simps) (simp add: Let_def nth_append)
  have r: "findMatchingBrace_loop s st i d =
      (if ?d = 0 then Inr i else findMatchingBrace_loop s st (Suc i) ?d)"
    using lt by (subst findMatchingBrace_loop.simps) (simp add: Let_def)
  have ih: "findMatchingBrace_loop (p @ s) (length p + st) (length p + Suc i) ?d =
      map_sum (shiftError (length p)) (\<lambda>j. length p + j) (findMatchingBrace_loop s st (Suc i) ?d)"
    using Suc.hyps(2) by (intro Suc.hyps(1)) simp
  show ?case unfolding l r ih by simp
qed

lemma findMatchingBrace_shift:
  "findMatchingBrace (p @ s) (length p + st) =
     map_sum (shiftError (length p)) (\<lambda>j. length p + j) (findMatchingBrace s st)"
  by (simp add: findMatchingBrace_def findMatchingBrace_loop_shift)

lemma slice_shift: "slice (p @ s) (length p + a) (length p + b) = slice s a b"
  by (simp add: slice_def)






lemma minlen_callRegex: "1 \<le> minlen callRegex"
  by (simp add: callRegex_def identRegex_def)








lemma exec_firstMatch:
  "exec r s = (case firstMatch r (\<lambda>_. None) s of
     None \<Rightarrow> None | Some (c, s') \<Rightarrow> Some (c, length s - length s'))"
  by (simp add: exec_def firstMatch_def split: list.splits)

lemma firstMatch_Lit: "firstMatch (Lit w) c (w @ t) = Some (c, t)"
  by (simp add: firstMatch_def)

lemma takeWhile_run:
  assumes "list_all P w" "t = [] \<or> \<not> P (hd t)"
  shows "takeWhile P (w @ t) = w"
proof -
  have "takeWhile P t = []" using assms(2) by (cases t) auto
  then show ?thesis using assms(1) by (simp add: takeWhile_append2 list_all_iff)
qed

lemma firstMatch_Star:
  assumes "list_all (in_class k) w" "t = [] \<or> \<not> in_class k (hd t)"
  shows "firstMatch (Star k) c (w @ t) = Some (c, t)"
  by (simp add: firstMatch_def takeWhile_run[OF assms])

lemma firstMatch_Plus:
  assumes "list_all (in_class k) w" "t = [] \<or> \<not> in_class k (hd t)" "w \<noteq> []"
  shows "firstMatch (Plus k) c (w @ t) = Some (c, t)"
proof -
  have "1 \<le> length w" using assms(3) by (cases w) auto
  then show ?thesis
    by (simp add: firstMatch_def takeWhile_run[OF assms(1,2)])
qed

lemma firstMatch_Seq:
  assumes "firstMatch a c s = Some (c1, s1)" "firstMatch b c1 s1 = Some y"
  shows "firstMatch (Seq a b) c s = Some y"
  using assms by (auto simp: firstMatch_def split: list.splits)

lemma firstMatch_Grp:
  assumes "firstMatch r c s = Some (c1, s1)"
  shows "firstMatch (Grp i r) c s = Some (c1(i \<mapsto> take (length s - length s1) s), s1)"
  using assms by (auto simp: firstMatch_def split: list.splits)

lemma firstMatch_Opt_skip:
  assumes "rmatch r c s = []"
  shows "firstMatch (Opt r) c s = Some (c, s)"
  using assms by (simp add: firstMatch_def)

lemma isIdentifier_split:
  assumes "isIdentifier nm"
  obtains w where "nm = ''--'' @ w" "w \<noteq> []" "list_all (in_class WordDash) w"
proof -
  have e: "take 2 nm = ''--''" using assms by (simp add: isIdentifier_def)
  have "take 2 nm @ drop 2 nm = nm" by (rule append_take_drop_id)
  then have "nm = ''--'' @ drop 2 nm" unfolding e by simp
  then show ?thesis using assms that[of "drop 2 nm"] by (simp add: isIdentifier_def)
qed

lemma firstMatch_identRegex:
  assumes "isIdentifier nm" "t = [] \<or> \<not> in_class WordDash (hd t)"
  shows "firstMatch identRegex c (nm @ t) = Some (c(1 \<mapsto> nm), t)"
proof -
  from assms(1) obtain w where w: "nm = ''--'' @ w" "w \<noteq> []" "list_all (in_class WordDash) w"
    by (rule isIdentifier_split)
  have 1: "firstMatch (Lit ''--'') c (''--'' @ (w @ t)) = Some (c, w @ t)"
    by (rule firstMatch_Lit)
  have 2: "firstMatch (Plus WordDash) c (w @ t) = Some (c, t)"
    using w(3) assms(2) w(2) by (rule firstMatch_Plus)
  have "firstMatch (Seq (Lit ''--'') (Plus WordDash)) c (''--'' @ (w @ t)) = Some (c, t)"
    using 1 2 by (rule firstMatch_Seq)
  from firstMatch_Grp[OF this, of 1] show ?thesis
    by (simp add: identRegex_def w(1))
qed

lemma exec_callRegex:
  assumes "isIdentifier nm"
  shows "exec callRegex (nm @ ''('' @ rest) = Some ((\<lambda>_. None)(1 \<mapsto> nm), length nm + 1)"
proof -
  have 1: "firstMatch identRegex (\<lambda>_. None) (nm @ (''('' @ rest)) =
      Some ((\<lambda>_. None)(1 \<mapsto> nm), ''('' @ rest)"
    using assms by (rule firstMatch_identRegex) (simp add: is_word_def)
  have 2: "firstMatch (Lit ''('') ((\<lambda>_. None)(1 \<mapsto> nm)) (''('' @ rest) =
      Some ((\<lambda>_. None)(1 \<mapsto> nm), rest)"
    by (rule firstMatch_Lit)
  have "firstMatch callRegex (\<lambda>_. None) (nm @ (''('' @ rest)) = Some ((\<lambda>_. None)(1 \<mapsto> nm), rest)"
    unfolding callRegex_def using 1 2 by (rule firstMatch_Seq)
  then show ?thesis by (simp add: exec_firstMatch)
qed






lemma rmatch_Lit_mem:
  "(c', s') \<in> set (rmatch (Lit w) c s) \<Longrightarrow> c' = c \<and> s = w @ s'"
proof -
  assume "(c', s') \<in> set (rmatch (Lit w) c s)"
  then have e: "c' = c" "take (length w) s = w" "s' = drop (length w) s"
    by (auto split: if_splits)
  have "take (length w) s @ drop (length w) s = s" by (rule append_take_drop_id)
  then show ?thesis using e by simp
qed


lemma search_SomeE:
  assumes "case search r s of None \<Rightarrow> False | Some (k, c, n) \<Rightarrow> P k c n"
  obtains k c n where "search r s = Some (k, c, n)" "P k c n"
  using assms by (cases "search r s") auto

declare search.simps [simp del]



lemma firstMatch_Eps: "firstMatch (Lit []) c s = Some (c, s)"
  by (simp add: firstMatch_def)

lemma exec_functionRegex:
  assumes id: "isIdentifier fnName" and ps: "CHR '')'' \<notin> set paramStr"
  shows "\<exists>c. exec functionRegex (''@function '' @ fnName @ ''('' @ paramStr @ ''){'' @ t) =
      Some (c, length (''@function '' @ fnName @ ''('' @ paramStr @ ''){'')) \<and>
    c 1 = Some fnName \<and> c 2 = Some paramStr"
proof -
  let ?c0 = "\<lambda>_. None :: string option"
  let ?c1 = "?c0(1 \<mapsto> fnName)"
  let ?c2 = "?c1(2 \<mapsto> paramStr)"
  let ?ret = "cat [Star Space, Lit ''returns'', Star Space, Plus (NoneOf ''{'')]"
  let ?s9 = "''{'' @ t"
  let ?s7 = "'')'' @ ?s9"
  let ?s6 = "paramStr @ ?s7"
  let ?s5 = "''('' @ ?s6"
  let ?s3 = "fnName @ ?s5"
  let ?s2 = "'' '' @ ?s3"
  let ?s1 = "''@function'' @ ?s2"
  have r10: "firstMatch (cat [Lit ''{'']) ?c2 ?s9 = Some (?c2, t)"
    using firstMatch_Lit[of "''{''" ?c2 t] firstMatch_Eps[of ?c2 t]
    by (simp only: cat.simps) (rule firstMatch_Seq)
  have "firstMatch (Star Space) ?c2 ([] @ ?s9) = Some (?c2, ?s9)"
    by (rule firstMatch_Star) (simp_all add: is_space_def)
  then have r9: "firstMatch (cat [Star Space, Lit ''{'']) ?c2 ?s9 = Some (?c2, t)"
    using r10 by (simp only: cat.simps append_Nil) (rule firstMatch_Seq)
  have "rmatch ?ret ?c2 ?s9 = []"
    by (simp add: is_space_def)
  then have "firstMatch (Opt ?ret) ?c2 ?s9 = Some (?c2, ?s9)"
    by (rule firstMatch_Opt_skip)
  then have r8: "firstMatch (cat [Opt ?ret, Star Space, Lit ''{'']) ?c2 ?s9 = Some (?c2, t)"
    using r9 by (simp only: cat.simps) (rule firstMatch_Seq)
  have "firstMatch (Lit '')'') ?c2 ?s7 = Some (?c2, ?s9)"
    by (rule firstMatch_Lit)
  then have r7: "firstMatch (cat [Lit '')'', Opt ?ret, Star Space, Lit ''{'']) ?c2 ?s7 = Some (?c2, t)"
    using r8 by (simp only: cat.simps) (rule firstMatch_Seq)
  have "firstMatch (Star (NoneOf '')'')) ?c1 ?s6 = Some (?c1, ?s7)"
    by (rule firstMatch_Star) (use ps in \<open>auto simp: list_all_iff\<close>)
  from firstMatch_Grp[OF this, of 2]
  have "firstMatch (Grp 2 (Star (NoneOf '')''))) ?c1 ?s6 = Some (?c2, ?s7)"
    by simp
  then have r6: "firstMatch (cat [Grp 2 (Star (NoneOf '')'')), Lit '')'', Opt ?ret, Star Space,
      Lit ''{'']) ?c1 ?s6 = Some (?c2, t)"
    using r7 by (simp only: cat.simps) (rule firstMatch_Seq)
  have "firstMatch (Lit ''('') ?c1 ?s5 = Some (?c1, ?s6)"
    by (rule firstMatch_Lit)
  then have r5: "firstMatch (cat [Lit ''('', Grp 2 (Star (NoneOf '')'')), Lit '')'', Opt ?ret,
      Star Space, Lit ''{'']) ?c1 ?s5 = Some (?c2, t)"
    using r6 by (simp only: cat.simps) (rule firstMatch_Seq)
  have "firstMatch (Star Space) ?c1 ([] @ ?s5) = Some (?c1, ?s5)"
    by (rule firstMatch_Star) (simp_all add: is_space_def)
  then have r4: "firstMatch (cat [Star Space, Lit ''('', Grp 2 (Star (NoneOf '')'')), Lit '')'',
      Opt ?ret, Star Space, Lit ''{'']) ?c1 ?s5 = Some (?c2, t)"
    using r5 by (simp only: cat.simps append_Nil) (rule firstMatch_Seq)
  have "firstMatch identRegex ?c0 ?s3 = Some (?c1, ?s5)"
    using id by (rule firstMatch_identRegex) (simp add: is_word_def)
  then have r3: "firstMatch (cat [identRegex, Star Space, Lit ''('', Grp 2 (Star (NoneOf '')'')),
      Lit '')'', Opt ?ret, Star Space, Lit ''{'']) ?c0 ?s3 = Some (?c2, t)"
    using r4 by (simp only: cat.simps) (rule firstMatch_Seq)
  obtain w where w: "fnName = ''--'' @ w"
    using id by (rule isIdentifier_split)
  have "hd ?s3 = CHR ''-''"
    by (simp add: w)
  then have "\<not> in_class Space (hd ?s3)"
    by (simp add: is_space_def)
  then have "firstMatch (Plus Space) ?c0 ?s2 = Some (?c0, ?s3)"
    by (intro firstMatch_Plus) (simp_all add: is_space_def)
  then have r2: "firstMatch (cat [Plus Space, identRegex, Star Space, Lit ''('',
      Grp 2 (Star (NoneOf '')'')), Lit '')'', Opt ?ret, Star Space, Lit ''{'']) ?c0 ?s2 = Some (?c2, t)"
    using r3 by (simp only: cat.simps) (rule firstMatch_Seq)
  have "firstMatch (Lit ''@function'') ?c0 ?s1 = Some (?c0, ?s2)"
    by (rule firstMatch_Lit)
  then have r1: "firstMatch functionRegex ?c0 ?s1 = Some (?c2, t)"
    using r2 by (simp only: functionRegex_def cat.simps) (rule firstMatch_Seq)
  have "exec functionRegex ?s1 = Some (?c2, length ?s1 - length t)"
    using r1 by (simp add: exec_firstMatch)
  then show ?thesis by (intro exI[of _ ?c2]) simp
qed

lemma minlen_functionRegex: "1 \<le> minlen functionRegex"
  by (simp add: functionRegex_def identRegex_def)

lemma extractFunctions_first_only:
  assumes ex: "exec functionRegex (h @ t) = Some (c, length h)"
    and c1: "c 1 = Some nm" and c2: "c 2 = Some ps"
    and nodecl: "search functionRegex t = None"
    and bal: "findMatchingBrace t 0 = Inr e"
  shows "extractFunctions (h @ t) registry =
    Inr (registry(nm \<mapsto> \<lparr>fn_name = nm, params = fst (parseParams ps), body = slice t 0 e\<rparr>),
         [(0, length h + e + 1)])"
proof -
  have sr: "search functionRegex (h @ t) = Some (0, c, length h)"
    using ex by (rule search_here)
  let ?mt = "\<lparr>index = 0, full = h, groups = c\<rparr>"
  have ms: "matchAll functionRegex 0 (h @ t) = [?mt]"
    using matchAll_first[OF sr minlen_functionRegex, of 0] nodecl
    by (simp add: matchAll_none)
  have fm: "findMatchingBrace (h @ t) (length h) = Inr (length h + e)"
    using findMatchingBrace_shift[of h t 0] bal by simp
  have sl: "slice (h @ t) (length h) (length h + e) = slice t 0 e"
    using slice_shift[of h t 0 e] by simp
  have cap: "capture ?mt 1 = nm" "capture ?mt 2 = ps"
    using c1 c2 by (simp_all add: capture_def)
  show ?thesis
    unfolding extractFunctions_def ms
    using fm sl cap by (simp add: Let_def)
qed

lemma extractFunctions_single:
  assumes id: "isIdentifier fnName" and ps: "CHR '')'' \<notin> set paramStr"
    and bal: "findMatchingBrace (body' @ ''}'') 0 = Inr (length body')"
    and nodecl: "search functionRegex (body' @ ''}'') = None"
  shows "extractFunctions (functionDecl fnName paramStr body') registry =
    Inr (registry(fnName \<mapsto>
           \<lparr>fn_name = fnName, params = fst (parseParams paramStr), body = body'\<rparr>),
         [(0, length (functionDecl fnName paramStr body'))])"
proof -
  let ?h = "''@function '' @ fnName @ ''('' @ paramStr @ ''){''"
  let ?t = "body' @ ''}''"
  have decl: "functionDecl fnName paramStr body' = ?h @ ?t"
    by (simp add: functionDecl_def)
  obtain c where ex: "exec functionRegex (?h @ ?t) = Some (c, length ?h)"
    and c1: "c 1 = Some fnName" and c2: "c 2 = Some paramStr"
    using exec_functionRegex[OF id ps, of ?t] by auto
  have sl: "slice ?t 0 (length body') = body'" by (simp add: slice_def)
  have len: "length ?h + length body' + 1 = length (?h @ ?t)" by simp
  show ?thesis
    unfolding decl
    using extractFunctions_first_only[OF ex c1 c2 nodecl bal, of registry]
    unfolding sl len .
qed

lemma resolveOnce_missing_result:
  assumes id: "isIdentifier fnName"
    and reg: "registry fnName = Some def"
    and closed: "findMatchingBrace (fnName @ ''('' @ rest) (length fnName + 1) = Inr argsEnd"
    and nores: "extractResult (body def) = Inl MissingResult"
  shows "resolveOnce (fnName @ ''('' @ rest) registry = Inl MissingResult"
proof -
  let ?code = "fnName @ ''('' @ rest"
  let ?c = "(\<lambda>_. None)(1 \<mapsto> fnName)"
  let ?mt = "\<lparr>index = 0, full = take (length fnName + 1) (drop 0 ?code), groups = ?c\<rparr>"
  have sr: "search callRegex ?code = Some (0, ?c, length fnName + 1)"
    using exec_callRegex[OF id, of rest] by (rule search_here)
  have ms: "matchAll callRegex 0 ?code =
      ?mt # matchAll callRegex (0 + 0 + (length fnName + 1)) (drop (0 + (length fnName + 1)) ?code)"
    using matchAll_first[OF sr minlen_callRegex, of 0] by simp
  have cap: "capture ?mt 1 = fnName" by (simp add: capture_def)
  have fl: "index ?mt + length (full ?mt) = length fnName + 1" by simp
  have "resolveOnce_loop ?code registry (?mt # ms') [] 0 = Inl MissingResult" for ms'
    unfolding resolveOnce_loop.simps Let_def fl cap reg closed by (simp add: nores)
  then show ?thesis
    unfolding resolveOnce_def ms .
qed

lemma findMatchingBrace_Inl: "findMatchingBrace code start = Inl e \<Longrightarrow> e = UnmatchedBrace start"
  using findMatchingBrace_loop_Inl[of start start 1 code e]
  by (simp add: findMatchingBrace_def runningDepth_start)

lemma extractFunctions_loop_Inl:
  "extractFunctions_loop code ms registry removals = Inl e \<Longrightarrow> e \<noteq> MissingResult"
proof (induction ms arbitrary: registry removals)
  case Nil
  then show ?case by simp
next
  case (Cons mt ms)
  show ?case
  proof (cases "findMatchingBrace code (index mt + length (full mt))")
    case (Inl e')
    then have "e = e'" using Cons.prems by (simp add: Let_def)
    then show ?thesis using findMatchingBrace_Inl[OF Inl] by simp
  next
    case (Inr bodyEnd)
    then show ?thesis using Cons by (simp add: Let_def)
  qed
qed

lemma extractFunctions_not_MissingResult: "extractFunctions code registry \<noteq> Inl MissingResult"
  using extractFunctions_loop_Inl[of code _ registry "[]" MissingResult]
  by (auto simp: extractFunctions_def)

section \<open>The result clause\<close>

lemma mem_Lit: "((c', s') \<in> set (rmatch (Lit w) c s)) = (c' = c \<and> s = w @ s')"
proof
  assume "(c', s') \<in> set (rmatch (Lit w) c s)"
  then show "c' = c \<and> s = w @ s'" by (rule rmatch_Lit_mem)
next
  assume "c' = c \<and> s = w @ s'"
  then show "(c', s') \<in> set (rmatch (Lit w) c s)" by simp
qed

lemma takeWhile_prefix:
  "list_all P w \<Longrightarrow> length w \<le> length (takeWhile P (w @ t))"
  by (induction w) auto

lemma take_takeWhile_all:
  "n \<le> length (takeWhile P s) \<Longrightarrow> list_all P (take n s)"
proof (induction s arbitrary: n)
  case Nil
  then show ?case by simp
next
  case (Cons x xs)
  then show ?case by (cases n) (auto split: if_splits)
qed

lemma mem_options:
  "(x \<in> set (map f (rev [a ..< Suc m]))) = (\<exists>n. a \<le> n \<and> n \<le> m \<and> x = f n)"
proof -
  have "set [a ..< Suc m] = {n. a \<le> n \<and> n \<le> m}" by auto
  then show ?thesis by (simp only: set_map set_rev) blast
qed

lemma mem_Star:
  "((c', s') \<in> set (rmatch (Star k) c s)) =
   (c' = c \<and> (\<exists>w. s = w @ s' \<and> list_all (in_class k) w))"
proof
  assume "(c', s') \<in> set (rmatch (Star k) c s)"
  then obtain n where n: "n \<le> length (takeWhile (in_class k) s)" "c' = c" "s' = drop n s"
    unfolding rmatch.simps mem_options by auto
  have "s = take n s @ s'" using n(3) by simp
  moreover have "list_all (in_class k) (take n s)" using n(1) by (rule take_takeWhile_all)
  ultimately show "c' = c \<and> (\<exists>w. s = w @ s' \<and> list_all (in_class k) w)"
    using n(2) by blast
next
  assume "c' = c \<and> (\<exists>w. s = w @ s' \<and> list_all (in_class k) w)"
  then obtain w where w: "c' = c" "s = w @ s'" "list_all (in_class k) w" by blast
  have "length w \<le> length (takeWhile (in_class k) s)"
    using takeWhile_prefix[OF w(3)] w(2) by simp
  then have "(c, drop (length w) s) \<in> set (rmatch (Star k) c s)"
    unfolding rmatch.simps mem_options by blast
  then show "(c', s') \<in> set (rmatch (Star k) c s)" using w by simp
qed

lemma mem_Plus:
  "((c', s') \<in> set (rmatch (Plus k) c s)) =
   (c' = c \<and> (\<exists>w. s = w @ s' \<and> list_all (in_class k) w \<and> w \<noteq> []))"
proof
  assume "(c', s') \<in> set (rmatch (Plus k) c s)"
  then obtain n where n: "1 \<le> n" "n \<le> length (takeWhile (in_class k) s)" "c' = c" "s' = drop n s"
    unfolding rmatch.simps mem_options by auto
  have "length (takeWhile (in_class k) s) \<le> length s" by (rule length_takeWhile_le)
  then have "take n s \<noteq> []" using n(1,2) by auto
  moreover have "s = take n s @ s'" using n(4) by simp
  moreover have "list_all (in_class k) (take n s)" using n(2) by (rule take_takeWhile_all)
  ultimately show "c' = c \<and> (\<exists>w. s = w @ s' \<and> list_all (in_class k) w \<and> w \<noteq> [])"
    using n(3) by blast
next
  assume "c' = c \<and> (\<exists>w. s = w @ s' \<and> list_all (in_class k) w \<and> w \<noteq> [])"
  then obtain w where w: "c' = c" "s = w @ s'" "list_all (in_class k) w" "w \<noteq> []" by blast
  have "length w \<le> length (takeWhile (in_class k) s)"
    using takeWhile_prefix[OF w(3)] w(2) by simp
  moreover have "1 \<le> length w" using w(4) by (cases w) auto
  ultimately have "(c, drop (length w) s) \<in> set (rmatch (Plus k) c s)"
    unfolding rmatch.simps mem_options by blast
  then show "(c', s') \<in> set (rmatch (Plus k) c s)" using w by simp
qed

lemma mem_Seq:
  "((c', s') \<in> set (rmatch (Seq a b) c s)) =
   (\<exists>c1 s1. (c1, s1) \<in> set (rmatch a c s) \<and> (c', s') \<in> set (rmatch b c1 s1))"
  by auto

lemma mem_Alt:
  "((c', s') \<in> set (rmatch (Alt a b) c s)) =
   ((c', s') \<in> set (rmatch a c s) \<or> (c', s') \<in> set (rmatch b c s))"
  by simp

lemma mem_Eol: "((c', s') \<in> set (rmatch Eol c s)) = (c' = c \<and> s = [] \<and> s' = [])"
  by auto

lemma mem_Grp:
  "((c', s') \<in> set (rmatch (Grp i r) c s)) =
   (\<exists>c0. (c0, s') \<in> set (rmatch r c s) \<and> c' = c0(i \<mapsto> take (length s - length s') s))"
  by auto


lemmas mem_simps = mem_Seq mem_Lit mem_Star mem_Plus mem_Grp mem_Alt mem_Eol

lemma dropWhile_run:
  assumes "list_all P w" "\<not> P x"
  shows "dropWhile P (w @ x # t) = x # t"
  using assms by (induction w) auto

lemma matches_mem: "matches r c s = (\<exists>c' s'. (c', s') \<in> set (rmatch r c s))"
  by (cases "rmatch r c s") (auto simp: matches_def)

lemma matches_Eps: "matches (Lit []) c s"
  by (simp add: matches_def)

lemma matches_Seq_Lit:
  "matches (Seq (Lit w) r) c s = (\<exists>s1. s = w @ s1 \<and> matches r c s1)"
  unfolding matches_mem mem_Seq mem_Lit by blast

lemma matches_Seq_Star:
  "matches (Seq (Star k) r) c s =
   (\<exists>w s1. s = w @ s1 \<and> list_all (in_class k) w \<and> matches r c s1)"
  unfolding matches_mem mem_Seq mem_Star by blast

lemma matches_Seq_Plus:
  "matches (Seq (Plus k) r) c s =
   (\<exists>w s1. s = w @ s1 \<and> list_all (in_class k) w \<and> w \<noteq> [] \<and> matches r c s1)"
  unfolding matches_mem mem_Seq mem_Plus by blast

lemma matches_Seq_Grp_Plus:
  "matches (Seq (Grp i (Plus k)) r) c s =
   (\<exists>w s1. s = w @ s1 \<and> list_all (in_class k) w \<and> w \<noteq> [] \<and> matches r (c(i \<mapsto> w)) s1)"
proof
  assume "matches (Seq (Grp i (Plus k)) r) c s"
  then obtain c' s' c1 s1 where 1: "(c1, s1) \<in> set (rmatch (Grp i (Plus k)) c s)"
    and 2: "(c', s') \<in> set (rmatch r c1 s1)"
    unfolding matches_mem mem_Seq by blast
  from 1 obtain w where w: "s = w @ s1" "list_all (in_class k) w" "w \<noteq> []"
    and c1: "c1 = c(i \<mapsto> take (length s - length s1) s)"
    unfolding mem_Grp mem_Plus by blast
  have "take (length s - length s1) s = w" using w(1) by simp
  then have "matches r (c(i \<mapsto> w)) s1" using 2 c1 unfolding matches_mem by blast
  then show "\<exists>w s1. s = w @ s1 \<and> list_all (in_class k) w \<and> w \<noteq> [] \<and> matches r (c(i \<mapsto> w)) s1"
    using w by blast
next
  assume "\<exists>w s1. s = w @ s1 \<and> list_all (in_class k) w \<and> w \<noteq> [] \<and> matches r (c(i \<mapsto> w)) s1"
  then obtain w s1 c' s' where w: "s = w @ s1" "list_all (in_class k) w" "w \<noteq> []"
    and 2: "(c', s') \<in> set (rmatch r (c(i \<mapsto> w)) s1)"
    unfolding matches_mem by blast
  have "take (length s - length s1) s = w" using w(1) by simp
  then have "(c(i \<mapsto> w), s1) \<in> set (rmatch (Grp i (Plus k)) c s)"
    unfolding mem_Grp mem_Plus using w by blast
  then show "matches (Seq (Grp i (Plus k)) r) c s"
    unfolding matches_mem mem_Seq using 2 by blast
qed

lemma matches_result_tail:
  "matches (Seq (Alt (Lit '';'') Eol) (Lit [])) c s = (s = [] \<or> hd s = CHR '';'')"
proof -
  have "matches (Seq (Alt (Lit '';'') Eol) (Lit [])) c s =
      ((\<exists>s'. s = '';'' @ s') \<or> s = [])"
    unfolding matches_mem mem_Seq mem_Alt mem_Lit mem_Eol by auto
  also have "\<dots> = (s = [] \<or> hd s = CHR '';'')"
    by (cases s) auto
  finally show ?thesis .
qed

lemma in_class_simps:
  "in_class Space = is_space" "in_class (NoneOf [x]) = (\<lambda>y. y \<noteq> x)"
  by (auto simp: fun_eq_iff)

lemma matches_Seq_Lit_I: "matches r c s1 \<Longrightarrow> matches (Seq (Lit w) r) c (w @ s1)"
  unfolding matches_Seq_Lit by blast

lemma matches_Seq_Star_I:
  "list_all (in_class k) w \<Longrightarrow> matches r c s1 \<Longrightarrow> matches (Seq (Star k) r) c (w @ s1)"
  unfolding matches_Seq_Star by blast

lemma matches_Seq_Grp_Plus_I:
  "list_all (in_class k) w \<Longrightarrow> w \<noteq> [] \<Longrightarrow> matches r (c(i \<mapsto> w)) s1 \<Longrightarrow>
   matches (Seq (Grp i (Plus k)) r) c (w @ s1)"
  unfolding matches_Seq_Grp_Plus by blast

lemma matches_Seq_Lit_E:
  assumes "matches (Seq (Lit w) r) c s"
  obtains s1 where "s = w @ s1" "matches r c s1"
  using assms unfolding matches_Seq_Lit by blast

lemma matches_Seq_Star_E:
  assumes "matches (Seq (Star k) r) c s"
  obtains w s1 where "s = w @ s1" "list_all (in_class k) w" "matches r c s1"
  using assms unfolding matches_Seq_Star by blast

lemma matches_Seq_Grp_Plus_E:
  assumes "matches (Seq (Grp i (Plus k)) r) c s"
  obtains w s1 where "s = w @ s1" "list_all (in_class k) w" "w \<noteq> []"
    "matches r (c(i \<mapsto> w)) s1"
  using assms unfolding matches_Seq_Grp_Plus by blast

lemma resultRegex_shape_I:
  assumes "list_all is_space ws1" "list_all is_space ws2" "g \<noteq> []"
    "list_all (\<lambda>x. x \<noteq> CHR '';'') g" "t = [] \<or> hd t = CHR '';''"
  shows "matches resultRegex c (''result'' @ ws1 @ '':'' @ ws2 @ g @ t)"
proof -
  have 6: "matches (Seq (Alt (Lit '';'') Eol) (Lit [])) (c(1 \<mapsto> g)) t"
    using assms(5) by (simp only: matches_result_tail)
  have 5: "matches (Seq (Grp 1 (Plus (NoneOf '';''))) (Seq (Alt (Lit '';'') Eol) (Lit []))) c (g @ t)"
    using assms(4,3) 6 by (intro matches_Seq_Grp_Plus_I) (simp_all add: in_class_simps)
  have 4: "matches (Seq (Star Space) (Seq (Grp 1 (Plus (NoneOf '';'')))
      (Seq (Alt (Lit '';'') Eol) (Lit [])))) c (ws2 @ g @ t)"
    using assms(2) 5 by (intro matches_Seq_Star_I) (simp_all add: in_class_simps)
  have 3: "matches (Seq (Lit '':'') (Seq (Star Space) (Seq (Grp 1 (Plus (NoneOf '';'')))
      (Seq (Alt (Lit '';'') Eol) (Lit []))))) c ('':'' @ ws2 @ g @ t)"
    using 4 by (rule matches_Seq_Lit_I)
  have 2: "matches (Seq (Star Space) (Seq (Lit '':'') (Seq (Star Space)
      (Seq (Grp 1 (Plus (NoneOf '';''))) (Seq (Alt (Lit '';'') Eol) (Lit [])))))) c
      (ws1 @ '':'' @ ws2 @ g @ t)"
    using assms(1) 3 by (intro matches_Seq_Star_I) (simp_all add: in_class_simps)
  show ?thesis
    unfolding resultRegex_def cat.simps using 2 by (rule matches_Seq_Lit_I)
qed

lemma resultRegex_shape_E:
  assumes "matches resultRegex c s"
  obtains ws1 ws2 g t where "s = ''result'' @ ws1 @ '':'' @ ws2 @ g @ t"
    "list_all is_space ws1" "list_all is_space ws2" "g \<noteq> []"
    "list_all (\<lambda>x. x \<noteq> CHR '';'') g" "t = [] \<or> hd t = CHR '';''"
proof -
  from assms obtain s1 where 1: "s = ''result'' @ s1" and m1: "matches (cat [Star Space,
      Lit '':'', Star Space, Grp 1 (Plus (NoneOf '';'')), Alt (Lit '';'') Eol]) c s1"
    unfolding resultRegex_def cat.simps by (rule matches_Seq_Lit_E)
  from m1 obtain ws1 s2 where 2: "s1 = ws1 @ s2" "list_all (in_class Space) ws1"
    and m2: "matches (cat [Lit '':'', Star Space, Grp 1 (Plus (NoneOf '';'')),
      Alt (Lit '';'') Eol]) c s2"
    unfolding cat.simps by (rule matches_Seq_Star_E)
  from m2 obtain s3 where 3: "s2 = '':'' @ s3" and m3: "matches (cat [Star Space,
      Grp 1 (Plus (NoneOf '';'')), Alt (Lit '';'') Eol]) c s3"
    unfolding cat.simps by (rule matches_Seq_Lit_E)
  from m3 obtain ws2 s4 where 4: "s3 = ws2 @ s4" "list_all (in_class Space) ws2"
    and m4: "matches (cat [Grp 1 (Plus (NoneOf '';'')), Alt (Lit '';'') Eol]) c s4"
    unfolding cat.simps by (rule matches_Seq_Star_E)
  from m4 obtain g t where 5: "s4 = g @ t" "list_all (in_class (NoneOf '';'')) g" "g \<noteq> []"
    and m5: "matches (cat [Alt (Lit '';'') Eol]) (c(1 \<mapsto> g)) t"
    unfolding cat.simps by (rule matches_Seq_Grp_Plus_E)
  have 6: "t = [] \<or> hd t = CHR '';''"
    using m5 unfolding cat.simps by (simp only: matches_result_tail)
  show ?thesis
    using that[of ws1 ws2 g t] 1 2 3 4 5 6 by (simp add: in_class_simps)
qed


lemma resultClauseAt_matches: "matches resultRegex c s = resultClauseAt s"
proof
  assume "matches resultRegex c s"
  then obtain ws1 ws2 g t where s: "s = ''result'' @ ws1 @ '':'' @ ws2 @ g @ t"
    and sp: "list_all is_space ws1" "list_all is_space ws2" and g: "g \<noteq> []"
    "list_all (\<lambda>x. x \<noteq> CHR '';'') g"
    by (rule resultRegex_shape_E)
  have ns: "\<not> is_space (CHR '':'')" "\<not> is_space (CHR '';'')" by (simp_all add: is_space_def)
  obtain x r where xr: "ws2 @ g @ t = x # r" "x \<noteq> CHR '';''"
  proof (cases ws2)
    case Nil
    obtain x g' where "g = x # g'" using g(1) by (cases g) auto
    then show ?thesis using that[of x "g' @ t"] Nil g(2) by simp
  next
    case (Cons y ws)
    then have "is_space y" using sp(2) by simp
    then have "y \<noteq> CHR '';''" using ns(2) by auto
    then show ?thesis using that[of y "ws @ g @ t"] Cons by simp
  qed
  have "dropWhile is_space (ws1 @ CHR '':'' # (ws2 @ g @ t)) = CHR '':'' # (ws2 @ g @ t)"
    using sp(1) ns(1) by (rule dropWhile_run)
  then have "dropWhile is_space (drop 6 s) = CHR '':'' # x # r"
    using xr(1) by (simp add: s)
  moreover have "take 6 s = ''result''" by (simp add: s)
  ultimately show "resultClauseAt s" using xr(2) by (simp add: resultClauseAt_def)
next
  assume a: "resultClauseAt s"
  then have t6: "take 6 s = ''result''" by (simp add: resultClauseAt_def)
  from a obtain x r where d: "dropWhile is_space (drop 6 s) = CHR '':'' # x # r" and x: "x \<noteq> CHR '';''"
    by (auto simp: resultClauseAt_def split: list.splits)
  let ?ws1 = "takeWhile is_space (drop 6 s)"
  let ?g = "takeWhile (\<lambda>y. y \<noteq> CHR '';'') (x # r)"
  let ?t = "dropWhile (\<lambda>y. y \<noteq> CHR '';'') (x # r)"
  have "take 6 s @ drop 6 s = s" by (rule append_take_drop_id)
  moreover have "?ws1 @ dropWhile is_space (drop 6 s) = drop 6 s" by (rule takeWhile_dropWhile_id)
  moreover have "?g @ ?t = x # r" by (rule takeWhile_dropWhile_id)
  ultimately have s: "s = ''result'' @ ?ws1 @ '':'' @ [] @ ?g @ ?t"
    using t6 d by simp
  have 1: "list_all is_space ?ws1"
    by (simp add: list_all_iff) (meson set_takeWhileD)
  have 2: "list_all (\<lambda>y. y \<noteq> CHR '';'') ?g"
    unfolding list_all_iff using set_takeWhileD by fastforce
  have 3: "?g \<noteq> []" using x by simp
  have 4: "?t = [] \<or> hd ?t = CHR '';''"
    using hd_dropWhile[of "\<lambda>y. y \<noteq> CHR '';''" "x # r"] by blast
  have "matches resultRegex c (''result'' @ ?ws1 @ '':'' @ [] @ ?g @ ?t)"
    using 1 _ 3 2 4 by (rule resultRegex_shape_I) simp
  then show "matches resultRegex c s" using s by simp
qed

lemma exec_None_matches: "(exec r s = None) = (\<not> matches r (\<lambda>_. None) s)"
  by (simp add: exec_def matches_def split: list.splits)

lemma search_None_resultRegex: "(search resultRegex s = None) = (\<not> hasResultClause s)"
proof (induction s)
  case Nil
  have "\<not> resultClauseAt []" by (simp add: resultClauseAt_def)
  then have "exec resultRegex [] = None"
    by (simp add: exec_None_matches resultClauseAt_matches)
  then show ?case by (simp add: search.simps)
next
  case (Cons x xs)
  show ?case
  proof (cases "resultClauseAt (x # xs)")
    case True
    then have "exec resultRegex (x # xs) \<noteq> None"
      by (simp add: exec_None_matches resultClauseAt_matches)
    then show ?thesis using True by (auto simp: search.simps)
  next
    case False
    then have "exec resultRegex (x # xs) = None"
      by (simp add: exec_None_matches resultClauseAt_matches)
    then have "(search resultRegex (x # xs) = None) = (search resultRegex xs = None)"
      by (simp add: search.simps split: option.splits)
    then show ?thesis using False Cons by simp
  qed
qed

lemma extractResult_MissingResult:
  "(extractResult b = Inl MissingResult) = (\<not> hasResultClause b)"
  using search_None_resultRegex[of b]
  by (auto simp: extractResult_def split: option.splits)

section \<open>Call sites at any position\<close>

lemma resolveOnce_loop_run:
  "resolveOnce_loop code registry (ms1 @ ms2) result lastIdx =
     (case resolveOnce_run code registry ms1 result lastIdx of
        Inl e \<Rightarrow> Inl e
      | Inr (result', lastIdx') \<Rightarrow> resolveOnce_loop code registry ms2 result' lastIdx')"
proof (induction ms1 arbitrary: result lastIdx)
  case Nil
  then show ?case by simp
next
  case (Cons mt ms)
  then show ?case
    by (simp add: Let_def split: option.splits sum.splits)
qed





lemma list2E:
  assumes "case xs of [a, b] \<Rightarrow> P a b | _ \<Rightarrow> False"
  obtains a b where "xs = [a, b]" "P a b"
  using assms by (auto split: list.splits)








section \<open>Calls of functions without a result and of unknown functions\<close>

lemma resolveOnce_missing_result_site:
  assumes ms: "matchAll callRegex 0 code = ms1 @ mt # ms2"
    and run: "resolveOnce_run code registry ms1 [] 0 = Inr st"
    and reg: "registry (capture mt 1) = Some def"
    and closed: "findMatchingBrace code (index mt + length (full mt)) = Inr argsEnd"
    and nores: "\<not> hasResultClause (body def)"
  shows "resolveOnce code registry = Inl MissingResult"
proof -
  obtain result lastIdx where st: "st = (result, lastIdx)" by (cases st)
  have e: "extractResult (body def) = Inl MissingResult"
    using nores by (simp add: extractResult_MissingResult)
  have "resolveOnce_loop code registry (mt # ms2) result lastIdx = Inl MissingResult"
    unfolding resolveOnce_loop.simps Let_def reg closed by (simp add: e)
  then show ?thesis
    unfolding resolveOnce_def ms resolveOnce_loop_run run st by simp
qed

lemma resolveFunctionCalls_Inl:
  "resolveOnce code registry = Inl e \<Longrightarrow> resolveFunctionCalls code registry = Inl e"
proof -
  assume r: "resolveOnce code registry = Inl e"
  have m: "MAX_RECURSION_DEPTH = Suc 9" by (simp add: MAX_RECURSION_DEPTH_def)
  show ?thesis
    unfolding resolveFunctionCalls_def m resolveFunctionCalls_loop.simps r by simp
qed

text \<open>
  C4. \<open>extractFunctions\<close> never throws the missing-result error, whatever the text.
  For a declaration \<open>@function name(params){body}\<close> whose body has balanced brackets
  and no declaration of its own, it succeeds, whatever the body says about \<open>result:\<close>:
  it registers the definition under its name and returns the span of the whole
  declaration. \<open>extractResult\<close> throws the missing-result error exactly for the texts
  without a result clause (\<open>hasResultClause\<close>: nowhere the word \<open>result\<close>, a colon after
  optional blanks and a first character of the expression). When the body of the
  declaration has no result clause, resolving a call of the function whose parenthesis
  is closed throws the missing-result error, from \<open>resolveOnce\<close> and so from
  \<open>resolveFunctionCalls\<close>. The same holds in any text at any call site of a registered
  function whose body has no result clause, once the scan reaches the site (the sites
  before it have thrown nothing) and the parenthesis of the call is closed.
\<close>

theorem C4_missing_result_at_resolution:
  assumes "isIdentifier fnName" and "CHR '')'' \<notin> set paramStr"
    and "findMatchingBrace (body' @ ''}'') 0 = Inr (length body')"
    and "search functionRegex (body' @ ''}'') = None"
  shows "extractFunctions code registry \<noteq> Inl MissingResult \<and>
    extractFunctions (functionDecl fnName paramStr body') registry =
    Inr (registry(fnName \<mapsto>
           \<lparr>fn_name = fnName, params = fst (parseParams paramStr), body = body'\<rparr>),
         [(0, length (functionDecl fnName paramStr body'))]) \<and>
    (extractResult text' = Inl MissingResult) = (\<not> hasResultClause text') \<and>
    (\<not> hasResultClause body' \<and>
     findMatchingBrace (fnName @ ''('' @ rest) (length fnName + 1) = Inr argsEnd \<longrightarrow>
       resolveOnce (fnName @ ''('' @ rest)
         (registry(fnName \<mapsto>
           \<lparr>fn_name = fnName, params = fst (parseParams paramStr), body = body'\<rparr>)) =
         Inl MissingResult \<and>
       resolveFunctionCalls (fnName @ ''('' @ rest)
         (registry(fnName \<mapsto>
           \<lparr>fn_name = fnName, params = fst (parseParams paramStr), body = body'\<rparr>)) =
         Inl MissingResult) \<and>
    (matchAll callRegex 0 code' = ms1 @ mt # ms2 \<and>
     resolveOnce_run code' registry' ms1 [] 0 = Inr st \<and>
     registry' (capture mt 1) = Some def \<and> \<not> hasResultClause (body def) \<and>
     findMatchingBrace code' (index mt + length (full mt)) = Inr argsEnd' \<longrightarrow>
       resolveOnce code' registry' = Inl MissingResult \<and>
       resolveFunctionCalls code' registry' = Inl MissingResult)"
proof (intro conjI impI)
  show "extractFunctions code registry \<noteq> Inl MissingResult"
    by (rule extractFunctions_not_MissingResult)
next
  show "extractFunctions (functionDecl fnName paramStr body') registry =
    Inr (registry(fnName \<mapsto>
           \<lparr>fn_name = fnName, params = fst (parseParams paramStr), body = body'\<rparr>),
         [(0, length (functionDecl fnName paramStr body'))])"
    using assms by (rule extractFunctions_single)
next
  show "(extractResult text' = Inl MissingResult) = (\<not> hasResultClause text')"
    by (rule extractResult_MissingResult)
next
  let ?def = "\<lparr>fn_name = fnName, params = fst (parseParams paramStr), body = body'\<rparr>"
  let ?reg = "registry(fnName \<mapsto> ?def)"
  assume a: "\<not> hasResultClause body' \<and>
     findMatchingBrace (fnName @ ''('' @ rest) (length fnName + 1) = Inr argsEnd"
  then have nores: "extractResult body' = Inl MissingResult"
    by (simp add: extractResult_MissingResult)
  show r: "resolveOnce (fnName @ ''('' @ rest) ?reg = Inl MissingResult"
    using assms(1) a nores by (intro resolveOnce_missing_result[where def = ?def]) simp_all
  then show "resolveFunctionCalls (fnName @ ''('' @ rest) ?reg = Inl MissingResult"
    by (rule resolveFunctionCalls_Inl)
next
  assume a: "matchAll callRegex 0 code' = ms1 @ mt # ms2 \<and>
     resolveOnce_run code' registry' ms1 [] 0 = Inr st \<and>
     registry' (capture mt 1) = Some def \<and> \<not> hasResultClause (body def) \<and>
     findMatchingBrace code' (index mt + length (full mt)) = Inr argsEnd'"
  then show r: "resolveOnce code' registry' = Inl MissingResult"
    by (intro resolveOnce_missing_result_site[of code' ms1 mt ms2 registry' st def argsEnd']) simp_all
  then show "resolveFunctionCalls code' registry' = Inl MissingResult"
    by (rule resolveFunctionCalls_Inl)
qed

theorem C4_missing_result_at_resolution_witness:
  "\<not> hasResultClause '' color: red; '' \<and>
   extractFunctions (functionDecl ''--f'' ''--x: 1'' '' color: red; '') (\<lambda>_. None) =
     Inr ((\<lambda>_. None)(''--f'' \<mapsto>
            \<lparr>fn_name = ''--f'', params = fst (parseParams ''--x: 1''), body = '' color: red; ''\<rparr>),
          [(0, length (functionDecl ''--f'' ''--x: 1'' '' color: red; ''))]) \<and>
   extractResult '' color: red; '' = Inl MissingResult \<and>
   resolveOnce (''--f'' @ ''('' @ ''3) 4'')
     ((\<lambda>_. None)(''--f'' \<mapsto>
        \<lparr>fn_name = ''--f'', params = fst (parseParams ''--x: 1''), body = '' color: red; ''\<rparr>)) =
     Inl MissingResult \<and>
   resolveFunctionCalls ''a: --u(1); b: --f(3);''
     ((\<lambda>_. None)(''--f'' \<mapsto>
        \<lparr>fn_name = ''--f'', params = fst (parseParams ''--x: 1''), body = '' color: red; ''\<rparr>)) =
     Inl MissingResult"
proof -
  let ?def = "\<lparr>fn_name = ''--f'', params = fst (parseParams ''--x: 1''), body = '' color: red; ''\<rparr>"
  let ?reg = "(\<lambda>_. None)(''--f'' \<mapsto> ?def)"
  let ?code = "''a: --u(1); b: --f(3);''"
  have 1: "isIdentifier ''--f''" by code_simp
  have 2: "CHR '')'' \<notin> set ''--x: 1''" by simp
  have 3: "findMatchingBrace ('' color: red; '' @ ''}'') 0 = Inr (length '' color: red; '')"
    by code_simp
  have 4: "search functionRegex ('' color: red; '' @ ''}'') = None" by code_simp
  have 5: "\<not> hasResultClause '' color: red; ''" by code_simp
  have 6: "findMatchingBrace (''--f'' @ ''('' @ ''3) 4'') (length ''--f'' + 1) = Inr 5"
    by code_simp
  have "case matchAll callRegex 0 ?code of
      [m1, m2] \<Rightarrow> resolveOnce_run ?code ?reg [m1] [] 0 = Inr (''a: --u('', 7) \<and>
        ?reg (capture m2 1) = Some ?def \<and>
        findMatchingBrace ?code (index m2 + length (full m2)) = Inr 19
    | _ \<Rightarrow> False"
    by code_simp
  then obtain m1 m2 where ms: "matchAll callRegex 0 ?code = [m1, m2]"
    and p: "resolveOnce_run ?code ?reg [m1] [] 0 = Inr (''a: --u('', 7) \<and>
        ?reg (capture m2 1) = Some ?def \<and>
        findMatchingBrace ?code (index m2 + length (full m2)) = Inr 19"
    by (rule list2E)
  have ms': "matchAll callRegex 0 ?code = [m1] @ m2 # []" using ms by simp
  have b: "\<not> hasResultClause (body ?def)" using 5 by simp
  note t = C4_missing_result_at_resolution[OF 1 2 3 4, where registry = "\<lambda>_. None"
      and text' = "'' color: red; ''" and rest = "''3) 4''" and argsEnd = 5]
  have 7: "resolveFunctionCalls ?code ?reg = Inl MissingResult"
    using C4_missing_result_at_resolution[OF 1 2 3 4, where code' = ?code and registry' = ?reg
        and ?ms1.0 = "[m1]" and mt = m2 and ?ms2.0 = "[]" and st = "(''a: --u('', 7)"
        and def = ?def and argsEnd' = 19] ms' p b
    by blast
  show ?thesis
    using t 5 6 7 by blast
qed




section \<open>Apply sites\<close>









lemma rmatch_Lit_Nil:
  "take (length w) s \<noteq> w \<Longrightarrow> rmatch (Lit w) c s = []"
  by simp







lemma hd_siteTail:
  "hd (siteTail b @ rest) = CHR '';'' \<or> hd (siteTail b @ rest) = CHR ''{''"
  by (cases b) (auto simp: siteTail_def)


















end
